theory Spec2Isabelle
  imports Main "HOL-Library.Word" "HOL-Library.AList"
begin

unbundle bit_operations_syntax

section \<open>JavaScript strings\<close>

text \<open>
  The program is \<^verbatim>\<open>src/sendEmail.ts\<close>. A JavaScript string is a sequence of UTF-16
  code units, so it is modelled as a list of 16-bit words. String literals of the
  source are ASCII and are written through \<open>ascii\<close>.
\<close>

type_synonym code_unit = "16 word"
type_synonym jsstring = "code_unit list"
type_synonym byte = "8 word"

definition ascii :: "string \<Rightarrow> jsstring" where
  "ascii s = map (\<lambda>c. of_nat (of_char c)) s"

definition NL :: code_unit where "NL = 0x0A"
definition COLON :: code_unit where "COLON = 0x3A"

text \<open>
  \<^verbatim>\<open>String.prototype.trim\<close> removes the ECMAScript WhiteSpace and LineTerminator
  code points from both ends: TAB, LF, VT, FF, CR, SP, NBSP, the Unicode space
  separators, LS, PS and the byte order mark. All of them are single code units.
\<close>

definition is_whitespace :: "code_unit \<Rightarrow> bool" where
  "is_whitespace c \<longleftrightarrow>
     c = 0x09 \<or> c = 0x0A \<or> c = 0x0B \<or> c = 0x0C \<or> c = 0x0D \<or> c = 0x20 \<or> c = 0xA0 \<or>
     c = 0x1680 \<or> (0x2000 \<le> c \<and> c \<le> 0x200A) \<or> c = 0x2028 \<or> c = 0x2029 \<or>
     c = 0x202F \<or> c = 0x205F \<or> c = 0x3000 \<or> c = 0xFEFF"

definition trim :: "jsstring \<Rightarrow> jsstring" where
  "trim s = rev (dropWhile is_whitespace (rev (dropWhile is_whitespace s)))"

text \<open>
  \<^verbatim>\<open>s.split(sep)\<close> with a one-character separator: the pieces between the
  separators, the empty string giving one empty piece.
\<close>

fun split_on :: "'a \<Rightarrow> 'a list \<Rightarrow> 'a list list" where
  "split_on sep [] = [[]]"
| "split_on sep (c # cs) =
     (if c = sep then [] # split_on sep cs
      else (case split_on sep cs of
              [] \<Rightarrow> [[c]]
            | w # ws \<Rightarrow> (c # w) # ws))"

text \<open>\<^verbatim>\<open>parts.join(sep)\<close>.\<close>

fun join_with :: "'a list \<Rightarrow> 'a list list \<Rightarrow> 'a list" where
  "join_with sep [] = []"
| "join_with sep [x] = x"
| "join_with sep (x # y # ys) = x @ sep @ join_with sep (y # ys)"

section \<open>The headers object\<close>

text \<open>
  \<^verbatim>\<open>const headers: EmailHeaders = {}\<close> is an ordinary JavaScript object used as a
  dictionary from strings to strings. It is modelled by the list of its own
  properties in the order of their creation.

  \<^item> \<^verbatim>\<open>headers[k] = v\<close> overwrites the value of an existing own property in place and
    appends a new property otherwise. The one exception is the key
    \<^verbatim>\<open>__proto__\<close>: the assignment reaches the accessor of \<^verbatim>\<open>Object.prototype\<close>,
    whose setter ignores a value that is neither an object nor null, so a string
    assigned to it creates no property.
  \<^item> \<^verbatim>\<open>headers[k]\<close> reads the own property; \<open>None\<close> is \<^verbatim>\<open>undefined\<close>. The
    source reads only the keys \<^verbatim>\<open>From\<close>, \<^verbatim>\<open>To\<close>, \<^verbatim>\<open>Subject\<close> (which
    \<^verbatim>\<open>Object.prototype\<close> does not define) and keys listed by \<^verbatim>\<open>Object.keys\<close>.
  \<^item> \<^verbatim>\<open>Object.keys(headers)\<close> lists the own keys that are array indices (canonical
    decimal numerals below \<open>2\<^sup>3\<^sup>2 - 1\<close>) in ascending numeric order, and then every
    other key in the order of creation.

  These are the rules of ECMA-262 for ordinary objects: the \<^verbatim>\<open>set\<close> accessor of
  \<^verbatim>\<open>Object.prototype.__proto__\<close> returns without effect when the value is neither
  an object nor null, and \<^verbatim>\<open>OrdinaryOwnPropertyKeys\<close> lists the array indices in
  ascending order before the other string keys in order of property creation.
\<close>

type_synonym EmailHeaders = "(jsstring \<times> jsstring) list"

definition PROTO :: jsstring where
  "PROTO = ascii ''__proto__''"

definition obj_set :: "EmailHeaders \<Rightarrow> jsstring \<Rightarrow> jsstring \<Rightarrow> EmailHeaders" where
  "obj_set headers k v = (if k = PROTO then headers else AList.update k v headers)"

definition obj_get :: "EmailHeaders \<Rightarrow> jsstring \<Rightarrow> jsstring option" where
  "obj_get headers k = map_of headers k"

definition is_digit :: "code_unit \<Rightarrow> bool" where
  "is_digit c \<longleftrightarrow> 0x30 \<le> c \<and> c \<le> 0x39"

definition index_value :: "jsstring \<Rightarrow> int" where
  "index_value k = foldl (\<lambda>n c. 10 * n + (uint c - 48)) 0 k"

definition is_array_index :: "jsstring \<Rightarrow> bool" where
  "is_array_index k \<longleftrightarrow>
     k \<noteq> [] \<and> list_all is_digit k \<and> (length k = 1 \<or> hd k \<noteq> 0x30) \<and>
     index_value k < 4294967295"

definition Object_keys :: "EmailHeaders \<Rightarrow> jsstring list" where
  "Object_keys headers =
     sort_key index_value (filter is_array_index (map fst headers)) @
     filter (\<lambda>k. \<not> is_array_index k) (map fst headers)"

text \<open>A value is falsy when it is \<^verbatim>\<open>undefined\<close> or the empty string.\<close>

definition falsy :: "jsstring option \<Rightarrow> bool" where
  "falsy v \<longleftrightarrow> v = None \<or> v = Some []"

section \<open>parseEmailTemplate\<close>

record ParsedEmail =
  headers :: EmailHeaders
  body :: jsstring

text \<open>
  The source logs a message and returns \<^verbatim>\<open>null\<close>; the error value records which
  message was logged, and for the missing fields the names the message lists.
\<close>

datatype ParseError =
    FileNotFound
  | MissingSeparator
  | MissingRequiredField "jsstring list"

text \<open>
  The loop of lines 156 to 162: the index of the first line whose trimmed text is
  empty, \<open>None\<close> standing for the initial \<^verbatim>\<open>-1\<close>.
\<close>

fun scan_blank :: "nat \<Rightarrow> jsstring list \<Rightarrow> nat option" where
  "scan_blank i [] = None"
| "scan_blank i (l # ls) = (if trim l = [] then Some i else scan_blank (Suc i) ls)"

definition headerEndIndex :: "jsstring list \<Rightarrow> nat option" where
  "headerEndIndex lines = scan_blank 0 lines"

text \<open>
  The body of the \<^verbatim>\<open>forEach\<close> of lines 175 to 180. \<^verbatim>\<open>split\<close> never returns an
  empty array, so the first case of the destructuring cannot happen.
\<close>

definition parse_header :: "EmailHeaders \<Rightarrow> jsstring \<Rightarrow> EmailHeaders" where
  "parse_header hdrs line =
     (if COLON \<in> set line then
        (case split_on COLON line of
           [] \<Rightarrow> hdrs
         | key # valueParts \<Rightarrow> obj_set hdrs (trim key) (trim (join_with [COLON] valueParts)))
      else hdrs)"

definition MANDATORY_FIELDS :: "jsstring list" where
  "MANDATORY_FIELDS = [ascii ''From'', ascii ''To'', ascii ''Subject'']"

definition parse_content :: "jsstring \<Rightarrow> ParseError + ParsedEmail" where
  "parse_content content =
     (let lines = split_on NL content in
      case headerEndIndex lines of
        None \<Rightarrow> Inl MissingSeparator
      | Some i \<Rightarrow>
          (let headerLines = take i lines;
               bodyLines = drop (i + 1) lines;
               hdrs = foldl parse_header [] headerLines;
               missingFields = filter (\<lambda>field. falsy (obj_get hdrs field)) MANDATORY_FIELDS
           in if length missingFields > 0 then Inl (MissingRequiredField missingFields)
              else Inr \<lparr>headers = hdrs, body = join_with [NL] bodyLines\<rparr>))"

text \<open>
  The file system is a map from paths to the decoded text of the files
  (\<^verbatim>\<open>existsSync\<close>, \<^verbatim>\<open>readFileSync(templateFile, 'utf8')\<close>).
\<close>

definition parseEmailTemplate ::
    "(jsstring \<rightharpoonup> jsstring) \<Rightarrow> jsstring \<Rightarrow> ParseError + ParsedEmail" where
  "parseEmailTemplate fs templateFile =
     (case fs templateFile of
        None \<Rightarrow> Inl FileNotFound
      | Some content \<Rightarrow> parse_content content)"

section \<open>createMessage\<close>

text \<open>\<^verbatim>\<open>headers[key] || ''\<close>: a falsy value is replaced by the empty string.\<close>

definition or_empty :: "jsstring option \<Rightarrow> jsstring" where
  "or_empty v = (if falsy v then [] else the v)"

definition header_line :: "EmailHeaders \<Rightarrow> jsstring \<Rightarrow> jsstring" where
  "header_line hdrs key = key @ ascii '': '' @ or_empty (obj_get hdrs key)"

definition messageParts :: "EmailHeaders \<Rightarrow> jsstring \<Rightarrow> jsstring list" where
  "messageParts hdrs bdy = map (header_line hdrs) (Object_keys hdrs) @ [[], bdy]"

definition message :: "EmailHeaders \<Rightarrow> jsstring \<Rightarrow> jsstring" where
  "message hdrs bdy = join_with [NL] (messageParts hdrs bdy)"

text \<open>
  \<^verbatim>\<open>Buffer.from(message)\<close> encodes the string as UTF-8: a code unit that is not a
  surrogate is a code point of one to three bytes, a surrogate pair is one code point
  of four bytes, and a surrogate without its partner is encoded as U+FFFD.
\<close>

definition is_high_surrogate :: "code_unit \<Rightarrow> bool" where
  "is_high_surrogate c \<longleftrightarrow> 0xD800 \<le> unat c \<and> unat c \<le> 0xDBFF"

definition is_low_surrogate :: "code_unit \<Rightarrow> bool" where
  "is_low_surrogate c \<longleftrightarrow> 0xDC00 \<le> unat c \<and> unat c \<le> 0xDFFF"

definition utf8_bytes :: "nat \<Rightarrow> byte list" where
  "utf8_bytes cp =
     (if cp < 0x80 then [of_nat cp]
      else if cp < 0x800 then [of_nat (0xC0 + cp div 0x40), of_nat (0x80 + cp mod 0x40)]
      else if cp < 0x10000 then
        [of_nat (0xE0 + cp div 0x1000), of_nat (0x80 + cp div 0x40 mod 0x40),
         of_nat (0x80 + cp mod 0x40)]
      else
        [of_nat (0xF0 + cp div 0x40000), of_nat (0x80 + cp div 0x1000 mod 0x40),
         of_nat (0x80 + cp div 0x40 mod 0x40), of_nat (0x80 + cp mod 0x40)])"

definition utf8_unit :: "code_unit \<Rightarrow> byte list" where
  "utf8_unit c =
     (if is_high_surrogate c \<or> is_low_surrogate c then utf8_bytes 0xFFFD
      else utf8_bytes (unat c))"

definition utf8_pair :: "code_unit \<Rightarrow> code_unit \<Rightarrow> byte list" where
  "utf8_pair hi lo = utf8_bytes (0x10000 + (unat hi - 0xD800) * 0x400 + (unat lo - 0xDC00))"

fun utf8_encode :: "jsstring \<Rightarrow> byte list" where
  "utf8_encode [] = []"
| "utf8_encode [c] = utf8_unit c"
| "utf8_encode (c # d # cs) =
     (if is_high_surrogate c \<and> is_low_surrogate d then utf8_pair c d @ utf8_encode cs
      else utf8_unit c @ utf8_encode (d # cs))"

text \<open>
  \<^verbatim>\<open>.toString('base64')\<close>: three bytes give four characters of the standard
  alphabet, and a last group of one or two bytes is padded with \<^verbatim>\<open>=\<close>.
\<close>

definition b64_alphabet :: jsstring where
  "b64_alphabet = ascii ''ABCDEFGHIJKLMNOPQRSTUVWXYZabcdefghijklmnopqrstuvwxyz0123456789+/''"

definition b64_char :: "nat \<Rightarrow> code_unit" where
  "b64_char n = b64_alphabet ! (n mod 64)"

definition EQUALS :: code_unit where "EQUALS = 0x3D"
definition PLUS :: code_unit where "PLUS = 0x2B"
definition SLASH :: code_unit where "SLASH = 0x2F"
definition MINUS :: code_unit where "MINUS = 0x2D"
definition UNDERSCORE :: code_unit where "UNDERSCORE = 0x5F"

fun base64 :: "byte list \<Rightarrow> jsstring" where
  "base64 [] = []"
| "base64 [a] =
     [b64_char (unat a div 4), b64_char (unat a mod 4 * 16), EQUALS, EQUALS]"
| "base64 [a, b] =
     [b64_char (unat a div 4), b64_char (unat a mod 4 * 16 + unat b div 16),
      b64_char (unat b mod 16 * 4), EQUALS]"
| "base64 (a # b # c # bs) =
     [b64_char (unat a div 4), b64_char (unat a mod 4 * 16 + unat b div 16),
      b64_char (unat b mod 16 * 4 + unat c div 64), b64_char (unat c mod 64)] @ base64 bs"

text \<open>\<^verbatim>\<open>s.replace(/x/g, y)\<close> for single characters, and \<^verbatim>\<open>s.replace(/=+$/, '')\<close>.\<close>

definition replace_all :: "code_unit \<Rightarrow> code_unit \<Rightarrow> jsstring \<Rightarrow> jsstring" where
  "replace_all x y s = map (\<lambda>c. if c = x then y else c) s"

definition strip_padding :: "jsstring \<Rightarrow> jsstring" where
  "strip_padding s = rev (dropWhile (\<lambda>c. c = EQUALS) (rev s))"

definition createMessage :: "EmailHeaders \<Rightarrow> jsstring \<Rightarrow> jsstring" where
  "createMessage hdrs bdy =
     strip_padding
       (replace_all SLASH UNDERSCORE
          (replace_all PLUS MINUS (base64 (utf8_encode (message hdrs bdy)))))"

section \<open>sendEmail\<close>

text \<open>
  The steps of \<^verbatim>\<open>sendEmail\<close> between authentication and the call of the send API:
  parse the template, check \<^verbatim>\<open>headers.To\<close> again, build the raw message.
\<close>

datatype SendPreparation =
    ParseFailed
  | ToRequired
  | Raw jsstring

definition sendEmail_prepare :: "(jsstring \<rightharpoonup> jsstring) \<Rightarrow> jsstring \<Rightarrow> SendPreparation" where
  "sendEmail_prepare fs templateFile =
     (case parseEmailTemplate fs templateFile of
        Inl e \<Rightarrow> ParseFailed
      | Inr parsed \<Rightarrow>
          if falsy (obj_get (headers parsed) (ascii ''To'')) then ToRequired
          else Raw (createMessage (headers parsed) (body parsed)))"

text \<open>
  The decoding that \<^verbatim>\<open>sendEmail\<close> applies to the raw message for its log (lines 252
  to 255): the URL-safe characters are mapped back, and the base64 text is decoded.
  Here the padding that \<^verbatim>\<open>createMessage\<close> stripped is restored first, and a text
  that is not base64 gives \<open>None\<close>.
\<close>

fun index_of :: "'a \<Rightarrow> 'a list \<Rightarrow> nat option" where
  "index_of x [] = None"
| "index_of x (y # ys) = (if x = y then Some 0 else map_option Suc (index_of x ys))"

definition b64_value :: "code_unit \<Rightarrow> nat option" where
  "b64_value c = index_of c b64_alphabet"

definition restore_padding :: "jsstring \<Rightarrow> jsstring" where
  "restore_padding s = s @ replicate ((4 - length s mod 4) mod 4) EQUALS"

fun b64_decode :: "jsstring \<Rightarrow> byte list option" where
  "b64_decode [] = Some []"
| "b64_decode (c1 # c2 # c3 # c4 # cs) =
     (case (b64_value c1, b64_value c2) of
        (Some s1, Some s2) \<Rightarrow>
          (if cs = [] \<and> c3 = EQUALS \<and> c4 = EQUALS then
             Some [of_nat (s1 * 4 + s2 div 16)]
           else (case b64_value c3 of
             None \<Rightarrow> None
           | Some s3 \<Rightarrow>
               (if cs = [] \<and> c4 = EQUALS then
                  Some [of_nat (s1 * 4 + s2 div 16), of_nat (s2 mod 16 * 16 + s3 div 4)]
                else (case b64_value c4 of
                  None \<Rightarrow> None
                | Some s4 \<Rightarrow>
                    map_option
                      (\<lambda>bs. of_nat (s1 * 4 + s2 div 16) #
                            of_nat (s2 mod 16 * 16 + s3 div 4) #
                            of_nat (s3 mod 4 * 64 + s4) # bs)
                      (b64_decode cs)))))
      | _ \<Rightarrow> None)"
| "b64_decode _ = None"

definition b64url_decode :: "jsstring \<Rightarrow> byte list option" where
  "b64url_decode raw =
     b64_decode
       (restore_padding (replace_all UNDERSCORE SLASH (replace_all MINUS PLUS raw)))"

text \<open>
  \<^verbatim>\<open>.toString('utf8')\<close> decodes UTF-8 and never fails: a byte that cannot start or
  continue a sequence, and a sequence cut short, are each replaced by U+FFFD, and
  decoding resumes at the first byte that was not consumed. The lead bytes
  \<^verbatim>\<open>E0\<close>, \<^verbatim>\<open>ED\<close>, \<^verbatim>\<open>F0\<close> and \<^verbatim>\<open>F4\<close> narrow the range of their second byte, which
  excludes overlong forms, surrogates and code points above U+10FFFF. A code point
  above U+FFFF becomes a surrogate pair.
\<close>

definition REPLACEMENT :: code_unit where "REPLACEMENT = 0xFFFD"

definition code_units :: "nat \<Rightarrow> jsstring" where
  "code_units cp =
     (if cp < 0x10000 then [of_nat cp]
      else [of_nat (0xD800 + (cp - 0x10000) div 0x400), of_nat (0xDC00 + (cp - 0x10000) mod 0x400)])"

definition continuation :: "nat \<Rightarrow> nat \<Rightarrow> byte \<Rightarrow> bool" where
  "continuation lower upper b \<longleftrightarrow> lower \<le> unat b \<and> unat b \<le> upper"

fun utf8_decode :: "byte list \<Rightarrow> jsstring" where
  "utf8_decode [] = []"
| "utf8_decode (b # bs) =
     (let n = unat b in
      if n < 0x80 then of_nat n # utf8_decode bs
      else if 0xC2 \<le> n \<and> n \<le> 0xDF then
        (case bs of
           [] \<Rightarrow> [REPLACEMENT]
         | b2 # r2 \<Rightarrow>
             if continuation 0x80 0xBF b2
             then code_units ((n - 0xC0) * 0x40 + (unat b2 - 0x80)) @ utf8_decode r2
             else REPLACEMENT # utf8_decode bs)
      else if 0xE0 \<le> n \<and> n \<le> 0xEF then
        (case bs of
           [] \<Rightarrow> [REPLACEMENT]
         | b2 # r2 \<Rightarrow>
             if continuation (if n = 0xE0 then 0xA0 else 0x80) (if n = 0xED then 0x9F else 0xBF) b2
             then (case r2 of
                     [] \<Rightarrow> [REPLACEMENT]
                   | b3 # r3 \<Rightarrow>
                       if continuation 0x80 0xBF b3
                       then code_units (((n - 0xE0) * 0x40 + (unat b2 - 0x80)) * 0x40 +
                                        (unat b3 - 0x80)) @ utf8_decode r3
                       else REPLACEMENT # utf8_decode r2)
             else REPLACEMENT # utf8_decode bs)
      else if 0xF0 \<le> n \<and> n \<le> 0xF4 then
        (case bs of
           [] \<Rightarrow> [REPLACEMENT]
         | b2 # r2 \<Rightarrow>
             if continuation (if n = 0xF0 then 0x90 else 0x80) (if n = 0xF4 then 0x8F else 0xBF) b2
             then (case r2 of
                     [] \<Rightarrow> [REPLACEMENT]
                   | b3 # r3 \<Rightarrow>
                       if continuation 0x80 0xBF b3
                       then (case r3 of
                               [] \<Rightarrow> [REPLACEMENT]
                             | b4 # r4 \<Rightarrow>
                                 if continuation 0x80 0xBF b4
                                 then code_units ((((n - 0xF0) * 0x40 + (unat b2 - 0x80)) * 0x40 +
                                                   (unat b3 - 0x80)) * 0x40 + (unat b4 - 0x80)) @
                                      utf8_decode r4
                                 else REPLACEMENT # utf8_decode r3)
                       else REPLACEMENT # utf8_decode r2)
             else REPLACEMENT # utf8_decode bs)
      else REPLACEMENT # utf8_decode bs)"

text \<open>
  \<^verbatim>\<open>decodedMessage\<close> of \<^verbatim>\<open>sendEmail\<close>: the raw message decoded back to a string.
\<close>

definition decodedMessage :: "jsstring \<Rightarrow> jsstring option" where
  "decodedMessage raw = map_option utf8_decode (b64url_decode raw)"

section \<open>The template format as the specification words it\<close>

text \<open>
  The definitions of this section do not come from the source. They say what the
  specification calls the blank-line separator, the header lines, the key/value pair
  written on a header line and the value written last for a key, so that the parser
  can be compared with them.
\<close>

definition SPACE :: code_unit where "SPACE = 0x20"

definition has_blank_line :: "jsstring \<Rightarrow> bool" where
  "has_blank_line content = list_ex (\<lambda>l. trim l = []) (split_on NL content)"

definition header_lines :: "jsstring \<Rightarrow> jsstring list" where
  "header_lines content = takeWhile (\<lambda>l. trim l \<noteq> []) (split_on NL content)"

definition header_pair :: "jsstring \<Rightarrow> (jsstring \<times> jsstring) option" where
  "header_pair line =
     (if COLON \<in> set line then
        Some (trim (takeWhile (\<lambda>c. c \<noteq> COLON) line),
              trim (tl (dropWhile (\<lambda>c. c \<noteq> COLON) line)))
      else None)"

definition written_pairs :: "jsstring \<Rightarrow> (jsstring \<times> jsstring) list" where
  "written_pairs content = List.map_filter header_pair (header_lines content)"

definition last_written :: "jsstring \<Rightarrow> jsstring \<Rightarrow> jsstring option" where
  "last_written content k = map_of (rev (written_pairs content)) k"

text \<open>
  The elements of a list in the order of their first occurrence (\<open>remdups\<close> keeps
  the last occurrence of each element).
\<close>

definition first_occurrences :: "'a list \<Rightarrow> 'a list" where
  "first_occurrences xs = rev (remdups (rev xs))"

definition written_keys :: "jsstring \<Rightarrow> jsstring list" where
  "written_keys content =
     first_occurrences (filter (\<lambda>k. k \<noteq> PROTO) (map fst (written_pairs content)))"

text \<open>
  The line expected for a key: the key, a colon, one space and the value written last
  for the key.
\<close>

definition expected_line :: "jsstring \<Rightarrow> jsstring \<Rightarrow> jsstring" where
  "expected_line content k =
     k @ [COLON, SPACE] @ (case last_written content k of None \<Rightarrow> [] | Some v \<Rightarrow> v)"

text \<open>
  A string is well formed when every surrogate code unit in it belongs to a pair, a
  high surrogate followed by a low one. Text decoded from a UTF-8 file is well formed.
\<close>

fun well_formed :: "jsstring \<Rightarrow> bool" where
  "well_formed [] \<longleftrightarrow> True"
| "well_formed [c] \<longleftrightarrow> \<not> is_high_surrogate c \<and> \<not> is_low_surrogate c"
| "well_formed (c # d # cs) \<longleftrightarrow>
     (if is_high_surrogate c \<and> is_low_surrogate d then well_formed cs
      else \<not> is_high_surrogate c \<and> \<not> is_low_surrogate c \<and> well_formed (d # cs))"

text \<open>
  The serialized text of a list of headers and a body: every header as its key, a
  colon, one space, its value and a line break; then the line break of the blank
  line; then the body.
\<close>

definition serialized_text :: "(jsstring \<times> jsstring) list \<Rightarrow> jsstring \<Rightarrow> jsstring" where
  "serialized_text entries bdy =
     concat (map (\<lambda>(k, v). k @ [COLON, SPACE] @ v @ [NL]) entries) @ NL # bdy"


text \<open>
  A line uses exactly one space after the colon when its first colon is followed by
  a space and that space is not followed by another one.
\<close>

definition one_space_after_colon :: "jsstring \<Rightarrow> bool" where
  "one_space_after_colon line =
     (case dropWhile (\<lambda>c. c \<noteq> COLON) line of
        [] \<Rightarrow> False
      | _ # [] \<Rightarrow> False
      | _ # s # rest \<Rightarrow> s = SPACE \<and> (case rest of [] \<Rightarrow> True | r # _ \<Rightarrow> r \<noteq> SPACE))"

section \<open>Names for intermediate values\<close>

text \<open>
  The object that the \<^verbatim>\<open>forEach\<close> of \<^verbatim>\<open>parseEmailTemplate\<close> builds and its
  \<^verbatim>\<open>bodyLines\<close>, as functions of the template text; and the effect of the two
  character replacements of \<^verbatim>\<open>createMessage\<close>, and of the two of the decoding, on one
  character.
\<close>

definition parsed_headers :: "jsstring \<Rightarrow> EmailHeaders" where
  "parsed_headers content = foldl parse_header [] (header_lines content)"

definition body_lines :: "jsstring \<Rightarrow> jsstring list" where
  "body_lines content = drop (Suc (length (header_lines content))) (split_on NL content)"

text \<open>
  The keys that the \<^verbatim>\<open>forEach\<close> of \<^verbatim>\<open>createMessage\<close> visits, each with the value
  \<^verbatim>\<open>headers[key] || ''\<close> that it writes.
\<close>

definition emitted_headers :: "EmailHeaders \<Rightarrow> (jsstring \<times> jsstring) list" where
  "emitted_headers hdrs = map (\<lambda>key. (key, or_empty (obj_get hdrs key))) (Object_keys hdrs)"

definition url :: "code_unit \<Rightarrow> code_unit" where
  "url c = (if (if c = PLUS then MINUS else c) = SLASH then UNDERSCORE
            else (if c = PLUS then MINUS else c))"

definition unurl :: "code_unit \<Rightarrow> code_unit" where
  "unurl c = (if (if c = MINUS then PLUS else c) = UNDERSCORE then SLASH
              else (if c = MINUS then PLUS else c))"

section \<open>Splitting and joining\<close>

lemma split_on_nonempty: "split_on sep s \<noteq> []"
  by (induction s) (auto split: list.splits)

lemma join_with_Cons: "ys \<noteq> [] \<Longrightarrow> join_with sep (x # ys) = x @ sep @ join_with sep ys"
  by (cases ys) auto

lemma join_split: "join_with [sep] (split_on sep s) = s"
proof (induction s)
  case Nil
  show ?case by simp
next
  case (Cons c cs)
  show ?case
  proof (cases "c = sep")
    case True
    with Cons show ?thesis by (simp add: join_with_Cons split_on_nonempty)
  next
    case False
    obtain w ws where w: "split_on sep cs = w # ws"
      using split_on_nonempty [of sep cs] by (cases "split_on sep cs") auto
    with Cons False show ?thesis by (cases ws) auto
  qed
qed

lemma split_on_no_sep: "sep \<notin> set s \<Longrightarrow> split_on sep s = [s]"
  by (induction s) auto

lemma split_on_append:
  "sep \<notin> set before \<Longrightarrow> split_on sep (before @ sep # after) = before # split_on sep after"
  by (induction before) auto

lemma split_on_pieces: "l \<in> set (split_on sep s) \<Longrightarrow> sep \<notin> set l"
proof (induction s arbitrary: l)
  case Nil
  then show ?case by simp
next
  case (Cons c cs)
  obtain w ws where w: "split_on sep cs = w # ws"
    using split_on_nonempty [of sep cs] by (cases "split_on sep cs") auto
  show ?case
  proof (cases "c = sep")
    case True
    with Cons show ?thesis by auto
  next
    case False
    with Cons.prems w have "l = c # w \<or> l \<in> set ws" by auto
    with Cons.IH w False show ?thesis by auto
  qed
qed

lemma join_with_append:
  "xs \<noteq> [] \<Longrightarrow> ys \<noteq> [] \<Longrightarrow>
   join_with sep (xs @ ys) = join_with sep xs @ sep @ join_with sep ys"
proof (induction xs)
  case Nil
  then show ?case by simp
next
  case (Cons x xs)
  show ?case
  proof (cases "xs = []")
    case True
    with Cons.prems show ?thesis by (simp add: join_with_Cons)
  next
    case False
    with Cons show ?thesis by (simp add: join_with_Cons)
  qed
qed

lemma split_join:
  "ls \<noteq> [] \<Longrightarrow> \<forall>l\<in>set ls. sep \<notin> set l \<Longrightarrow> split_on sep (join_with [sep] ls) = ls"
proof (induction ls)
  case Nil
  then show ?case by simp
next
  case (Cons l ls)
  show ?case
  proof (cases "ls = []")
    case True
    with Cons.prems show ?thesis by (simp add: split_on_no_sep)
  next
    case False
    with Cons have "split_on sep (join_with [sep] ls) = ls" by simp
    moreover have "join_with [sep] (l # ls) = l @ sep # join_with [sep] ls"
      using False by (simp add: join_with_Cons)
    ultimately show ?thesis using Cons.prems by (simp add: split_on_append)
  qed
qed

lemma scan_blank_None: "scan_blank i ls = None \<longleftrightarrow> (\<forall>l\<in>set ls. trim l \<noteq> [])"
  by (induction ls arbitrary: i) auto

lemma scan_blank_Some:
  "scan_blank i ls = Some j \<longleftrightarrow>
     (\<exists>l\<in>set ls. trim l = []) \<and> j = i + length (takeWhile (\<lambda>l. trim l \<noteq> []) ls)"
  by (induction ls arbitrary: i) auto

section \<open>Header lines and the headers object\<close>

lemma first_colon_decomp:
  "COLON \<in> set line \<Longrightarrow>
   line = takeWhile (\<lambda>c. c \<noteq> COLON) line @ COLON # tl (dropWhile (\<lambda>c. c \<noteq> COLON) line)"
proof -
  assume a: "COLON \<in> set line"
  then have "dropWhile (\<lambda>c. c \<noteq> COLON) line \<noteq> []" by (simp add: dropWhile_eq_Nil_conv)
  moreover from this have "hd (dropWhile (\<lambda>c. c \<noteq> COLON) line) = COLON"
    using hd_dropWhile [of "\<lambda>c. c \<noteq> COLON" line] by simp
  ultimately have "dropWhile (\<lambda>c. c \<noteq> COLON) line = COLON # tl (dropWhile (\<lambda>c. c \<noteq> COLON) line)"
    by (cases "dropWhile (\<lambda>c. c \<noteq> COLON) line") auto
  then show ?thesis
    using takeWhile_dropWhile_id [of "\<lambda>c. c \<noteq> COLON" line] by simp
qed

lemma takeWhile_no_colon: "COLON \<notin> set (takeWhile (\<lambda>c. c \<noteq> COLON) line)"
  by (induction line) auto

lemma parse_header_split:
  assumes "COLON \<notin> set before"
  shows "parse_header hdrs (before @ COLON # after) = obj_set hdrs (trim before) (trim after)"
  using assms by (simp add: parse_header_def split_on_append join_split)

lemma parse_header_pair:
  "parse_header hdrs line =
     (case header_pair line of None \<Rightarrow> hdrs | Some (k, v) \<Rightarrow> obj_set hdrs k v)"
proof (cases "COLON \<in> set line")
  case True
  have "parse_header hdrs line =
        parse_header hdrs (takeWhile (\<lambda>c. c \<noteq> COLON) line @ COLON # tl (dropWhile (\<lambda>c. c \<noteq> COLON) line))"
    using first_colon_decomp [OF True] by simp
  also have "\<dots> = obj_set hdrs (trim (takeWhile (\<lambda>c. c \<noteq> COLON) line))
                      (trim (tl (dropWhile (\<lambda>c. c \<noteq> COLON) line)))"
    by (rule parse_header_split) (rule takeWhile_no_colon)
  finally show ?thesis using True by (simp add: header_pair_def)
next
  case False
  then show ?thesis by (simp add: parse_header_def header_pair_def)
qed

lemma foldl_parse_header:
  "foldl parse_header hdrs ls = foldl (\<lambda>h (k, v). obj_set h k v) hdrs (List.map_filter header_pair ls)"
proof (induction ls arbitrary: hdrs)
  case Nil
  show ?case by (simp add: List.map_filter_simps)
next
  case (Cons l ls)
  show ?case
  proof (cases "header_pair l")
    case None
    then have "parse_header hdrs l = hdrs" by (simp add: parse_header_pair)
    with None show ?thesis by (simp add: List.map_filter_simps Cons.IH)
  next
    case (Some kv)
    obtain k v where kv: "kv = (k, v)" by (cases kv)
    with Some have "parse_header hdrs l = obj_set hdrs k v" by (simp add: parse_header_pair)
    with Some kv show ?thesis by (simp add: List.map_filter_simps Cons.IH)
  qed
qed

lemma map_of_obj_set:
  "map_of (obj_set hdrs k' v') k =
     (if k' = PROTO then map_of hdrs k else if k = k' then Some v' else map_of hdrs k)"
  by (simp add: obj_set_def update_conv')

lemma map_of_assign:
  "map_of (foldl (\<lambda>h (k, v). obj_set h k v) hdrs ps) k =
     (if k = PROTO then map_of hdrs k
      else (case map_of (rev ps) k of None \<Rightarrow> map_of hdrs k | Some v \<Rightarrow> Some v))"
proof (induction ps arbitrary: hdrs)
  case Nil
  show ?case by simp
next
  case (Cons p ps)
  obtain k' v' where p: "p = (k', v')" by (cases p)
  have "map_of (foldl (\<lambda>h (k, v). obj_set h k v) hdrs (p # ps)) k =
        map_of (foldl (\<lambda>h (k, v). obj_set h k v) (obj_set hdrs k' v') ps) k"
    by (simp add: p)
  also have "\<dots> = (if k = PROTO then map_of (obj_set hdrs k' v') k
      else (case map_of (rev ps) k of None \<Rightarrow> map_of (obj_set hdrs k' v') k | Some v \<Rightarrow> Some v))"
    by (rule Cons.IH)
  also have "\<dots> = (if k = PROTO then map_of hdrs k
      else (case map_of (rev (p # ps)) k of None \<Rightarrow> map_of hdrs k | Some v \<Rightarrow> Some v))"
    by (auto simp: p map_of_obj_set map_of_append map_add_def split: option.splits)
  finally show ?case .
qed

lemma remdups_snoc: "remdups (ys @ [x]) = remdups (filter (\<lambda>y. y \<noteq> x) ys) @ [x]"
  by (induction ys) auto

lemma first_occurrences_Cons:
  "first_occurrences (x # xs) = x # first_occurrences (filter (\<lambda>y. y \<noteq> x) xs)"
  by (simp add: first_occurrences_def remdups_snoc rev_filter)

lemma first_occurrences_Nil: "first_occurrences [] = []"
  by (simp add: first_occurrences_def)

lemma keys_assign:
  "map fst (foldl (\<lambda>h (k, v). obj_set h k v) hdrs ps) =
     map fst hdrs @
     first_occurrences (filter (\<lambda>k. k \<noteq> PROTO \<and> k \<notin> set (map fst hdrs)) (map fst ps))"
proof (induction ps arbitrary: hdrs)
  case Nil
  show ?case by (simp add: first_occurrences_Nil)
next
  case (Cons p ps)
  obtain k v where p: "p = (k, v)" by (cases p)
  show ?case
  proof (cases "k = PROTO \<or> k \<in> set (map fst hdrs)")
    case True
    then have "map fst (obj_set hdrs k v) = map fst hdrs"
      by (auto simp: obj_set_def update_keys)
    with True show ?thesis by (auto simp: p Cons)
  next
    case False
    then have k: "map fst (obj_set hdrs k v) = map fst hdrs @ [k]"
      by (auto simp: obj_set_def update_keys)
    have "(\<lambda>x. x \<noteq> PROTO \<and> x \<notin> set (map fst hdrs @ [k])) =
          (\<lambda>x. (x \<noteq> PROTO \<and> x \<notin> set (map fst hdrs)) \<and> x \<noteq> k)" by auto
    with False k show ?thesis
      by (simp add: p Cons first_occurrences_Cons del: set_append set_map) 
  qed
qed

lemma distinct_assign:
  "distinct (map fst hdrs) \<Longrightarrow> distinct (map fst (foldl (\<lambda>h (k, v). obj_set h k v) hdrs ps))"
proof (induction ps arbitrary: hdrs)
  case Nil
  then show ?case by simp
next
  case (Cons p ps)
  obtain k v where p: "p = (k, v)" by (cases p)
  have "distinct (map fst (obj_set hdrs k v))"
    using Cons.prems by (simp add: obj_set_def distinct_update)
  then show ?case by (simp add: p Cons.IH)
qed

lemma headerEndIndex_None: "headerEndIndex (split_on NL content) = None \<longleftrightarrow> \<not> has_blank_line content"
  by (auto simp: headerEndIndex_def scan_blank_None has_blank_line_def list_ex_iff)

lemma headerEndIndex_Some:
  "headerEndIndex (split_on NL content) = Some i \<longleftrightarrow>
     has_blank_line content \<and> i = length (header_lines content)"
  by (simp add: headerEndIndex_def scan_blank_Some has_blank_line_def list_ex_iff header_lines_def)

lemma take_header_lines:
  "take (length (header_lines content)) (split_on NL content) = header_lines content"
  unfolding header_lines_def by (rule takeWhile_eq_take [symmetric])

lemma parse_content_cases:
  "parse_content content =
     (if \<not> has_blank_line content then Inl MissingSeparator
      else if filter (\<lambda>field. falsy (obj_get (parsed_headers content) field)) MANDATORY_FIELDS \<noteq> []
        then Inl (MissingRequiredField
                    (filter (\<lambda>field. falsy (obj_get (parsed_headers content) field)) MANDATORY_FIELDS))
      else Inr \<lparr>headers = parsed_headers content, body = join_with [NL] (body_lines content)\<rparr>)"
proof (cases "has_blank_line content")
  case False
  then have "headerEndIndex (split_on NL content) = None" by (simp add: headerEndIndex_None)
  with False show ?thesis by (simp add: parse_content_def)
next
  case True
  then have "headerEndIndex (split_on NL content) = Some (length (header_lines content))"
    by (simp add: headerEndIndex_Some)
  with True show ?thesis
    by (simp add: parse_content_def Let_def take_header_lines parsed_headers_def body_lines_def)
qed

lemma obj_get_parsed:
  "obj_get (parsed_headers content) k = (if k = PROTO then None else last_written content k)"
  by (simp add: obj_get_def parsed_headers_def foldl_parse_header map_of_assign
      last_written_def written_pairs_def split: option.splits)

lemma keys_parsed:
  "map fst (parsed_headers content) =
     first_occurrences (filter (\<lambda>k. k \<noteq> PROTO) (map fst (written_pairs content)))"
  by (simp add: parsed_headers_def foldl_parse_header keys_assign written_pairs_def)

lemma distinct_parsed: "distinct (map fst (parsed_headers content))"
  by (simp add: parsed_headers_def foldl_parse_header distinct_assign)

lemma mandatory_not_proto: "field \<in> set MANDATORY_FIELDS \<Longrightarrow> field \<noteq> PROTO"
  by (auto simp: MANDATORY_FIELDS_def PROTO_def ascii_def)

lemma missing_fields_written:
  "filter (\<lambda>field. falsy (obj_get (parsed_headers content) field)) MANDATORY_FIELDS =
   filter (\<lambda>field. falsy (last_written content field)) MANDATORY_FIELDS"
  by (rule filter_cong) (auto simp: obj_get_parsed mandatory_not_proto)

lemma lines_decomp:
  assumes "has_blank_line content"
  shows "\<exists>blank. trim blank = [] \<and> NL \<notin> set blank \<and>
           split_on NL content = header_lines content @ blank # body_lines content"
proof -
  let ?P = "\<lambda>l. trim l \<noteq> []"
  let ?ls = "split_on NL content"
  from assms have ne: "dropWhile ?P ?ls \<noteq> []"
    by (auto simp: has_blank_line_def list_ex_iff dropWhile_eq_Nil_conv)
  then obtain blank rest where d: "dropWhile ?P ?ls = blank # rest"
    by (cases "dropWhile ?P ?ls") auto
  have "\<not> ?P (hd (dropWhile ?P ?ls))" using ne by (rule hd_dropWhile)
  with d have b: "trim blank = []" by simp
  have "blank \<in> set ?ls" using d set_dropWhileD [of blank ?P ?ls] by simp
  then have n: "NL \<notin> set blank" by (rule split_on_pieces)
  have "?ls = takeWhile ?P ?ls @ dropWhile ?P ?ls" by simp
  then have l: "?ls = header_lines content @ blank # rest" using d by (simp add: header_lines_def)
  have "body_lines content = drop (Suc (length (header_lines content))) (header_lines content @ blank # rest)"
    unfolding body_lines_def using l by simp
  then have "body_lines content = rest" by simp
  with l b n show ?thesis by auto
qed

lemma body_after_blank:
  assumes "has_blank_line content"
  shows "\<exists>blank. trim blank = [] \<and> NL \<notin> set blank \<and>
     (content = join_with [NL] (header_lines content @ [blank]) @ NL # join_with [NL] (body_lines content)
      \<or> content = join_with [NL] (header_lines content @ [blank]) \<and> join_with [NL] (body_lines content) = [])"
proof -
  from lines_decomp [OF assms] obtain blank where
    b: "trim blank = []" "NL \<notin> set blank"
    and l: "split_on NL content = header_lines content @ blank # body_lines content" by blast
  have c: "content = join_with [NL] ((header_lines content @ [blank]) @ body_lines content)"
    using join_split [of NL content] l by simp
  show ?thesis
  proof (cases "body_lines content = []")
    case True
    with c b show ?thesis by auto
  next
    case False
    then have "content = join_with [NL] (header_lines content @ [blank]) @ [NL] @ join_with [NL] (body_lines content)"
      using c join_with_append [of "header_lines content @ [blank]" "body_lines content" "[NL]"] by simp
    with b show ?thesis by auto
  qed
qed


section \<open>UTF-8\<close>

lemma byte_of_nat: "n < 256 \<Longrightarrow> unat (of_nat n :: byte) = n"
  by (simp add: unat_of_nat)

lemma unit_bound: "unat (c :: code_unit) < 65536"
  using unsigned_less [of c, where 'a = nat] by simp

lemma two_byte_facts:
  assumes "128 \<le> cp" "cp < (2048::nat)"
  shows "192 + cp div 64 < 256" "194 \<le> 192 + cp div 64" "192 + cp div 64 \<le> 223"
    "128 + cp mod 64 < 256" "128 + cp mod 64 \<le> 191"
    "cp div 64 * 64 + cp mod 64 = cp"
  using assms by simp_all

lemma div_4096: "(cp::nat) div 4096 = cp div 64 div 64"
  by (simp add: div_mult2_eq [symmetric])

lemma div_262144: "(cp::nat) div 262144 = cp div 64 div 64 div 64"
  by (simp add: div_mult2_eq [symmetric])

lemma three_byte_facts:
  assumes "2048 \<le> cp" "cp < (65536::nat)"
  shows "224 + cp div 4096 < 256" "224 + cp div 4096 \<le> 239"
    "128 + cp div 64 mod 64 < 256" "128 + cp div 64 mod 64 \<le> 191"
    "128 + cp mod 64 < 256" "128 + cp mod 64 \<le> 191"
    "(cp div 4096 * 64 + cp div 64 mod 64) * 64 + cp mod 64 = cp"
    "cp div 4096 = 0 \<Longrightarrow> 32 \<le> cp div 64 mod 64"
    "cp div 4096 = 13 \<Longrightarrow> cp < 55296 \<Longrightarrow> cp div 64 mod 64 \<le> 31"
proof -
  let ?q = "cp div 64"
  have q: "?q = 64 * (?q div 64) + ?q mod 64" by simp
  have c: "cp = 64 * ?q + cp mod 64" by simp
  have m: "?q mod 64 < 64" "cp mod 64 < 64" by simp_all
  show "224 + cp div 4096 < 256" "224 + cp div 4096 \<le> 239" using assms by simp_all
  show "128 + cp div 64 mod 64 < 256" "128 + cp div 64 mod 64 \<le> 191"
    using m by simp_all
  show "128 + cp mod 64 < 256" "128 + cp mod 64 \<le> 191"
    using m by simp_all
  show "(cp div 4096 * 64 + cp div 64 mod 64) * 64 + cp mod 64 = cp"
    by (simp add: div_4096)
  show "32 \<le> cp div 64 mod 64" if "cp div 4096 = 0"
  proof -
    from that have "?q div 64 = 0" by (simp add: div_4096)
    with q have "?q mod 64 = ?q" by simp
    moreover have "2048 div 64 \<le> ?q" using assms(1) by (rule div_le_mono)
    ultimately show ?thesis by simp
  qed
  show "cp div 64 mod 64 \<le> 31" if "cp div 4096 = 13" "cp < 55296"
  proof -
    from that(1) have "?q div 64 = 13" by (simp add: div_4096)
    with q have e: "?q = 832 + ?q mod 64" by simp
    have "?q \<le> 55295 div 64" using that(2) by (intro div_le_mono) simp
    then have "?q \<le> 863" by simp
    with e show ?thesis by linarith
  qed
qed

lemma four_byte_facts:
  assumes "65536 \<le> cp" "cp < (1114112::nat)"
  shows "240 + cp div 262144 < 256" "240 + cp div 262144 \<le> 244"
    "128 + cp div 4096 mod 64 < 256" "128 + cp div 4096 mod 64 \<le> 191"
    "128 + cp div 64 mod 64 < 256" "128 + cp div 64 mod 64 \<le> 191"
    "128 + cp mod 64 < 256" "128 + cp mod 64 \<le> 191"
    "((cp div 262144 * 64 + cp div 4096 mod 64) * 64 + cp div 64 mod 64) * 64 + cp mod 64 = cp"
    "cp div 262144 = 0 \<Longrightarrow> 16 \<le> cp div 4096 mod 64"
    "cp div 262144 = 4 \<Longrightarrow> cp div 4096 mod 64 \<le> 15"
proof -
  let ?p = "cp div 4096"
  have p: "?p = 64 * (?p div 64) + ?p mod 64" by simp
  have pd: "?p div 64 = cp div 262144" by (simp add: div_4096 div_262144)
  have m: "?p mod 64 < 64" "cp div 64 mod 64 < 64" "cp mod 64 < 64" by simp_all
  have lo: "65536 div 4096 \<le> ?p" using assms(1) by (rule div_le_mono)
  have "?p \<le> 1114111 div 4096" using assms(2) by (intro div_le_mono) simp
  then have hi: "?p \<le> 271" by simp
  show "240 + cp div 262144 < 256" "240 + cp div 262144 \<le> 244" using assms by simp_all
  show "128 + cp div 4096 mod 64 < 256" "128 + cp div 4096 mod 64 \<le> 191"
    using m by simp_all
  show "128 + cp div 64 mod 64 < 256" "128 + cp div 64 mod 64 \<le> 191"
    using m by simp_all
  show "128 + cp mod 64 < 256" "128 + cp mod 64 \<le> 191"
    using m by simp_all
  show "((cp div 262144 * 64 + cp div 4096 mod 64) * 64 + cp div 64 mod 64) * 64 + cp mod 64 = cp"
    by (simp add: div_4096 div_262144)
  show "16 \<le> cp div 4096 mod 64" if "cp div 262144 = 0"
    using that p pd lo by simp
  show "cp div 4096 mod 64 \<le> 15" if "cp div 262144 = 4"
  proof -
    from that p pd have "?p = 256 + ?p mod 64" by simp
    with hi show ?thesis by linarith
  qed
qed

lemma decode_one:
  assumes "unat b1 < 128"
  shows "utf8_decode (b1 # rest) = of_nat (unat b1) # utf8_decode rest"
  using assms by (simp add: Let_def)

lemma decode_two:
  assumes "unat b1 = 192 + x" "2 \<le> x" "x \<le> 31" "unat b2 = 128 + y" "y \<le> 63"
  shows "utf8_decode (b1 # b2 # rest) = code_units (x * 64 + y) @ utf8_decode rest"
  using assms by (simp add: Let_def continuation_def)

lemma decode_three:
  assumes "unat b1 = 224 + x" "x \<le> 15" "unat b2 = 128 + y" "y \<le> 63"
    "x = 0 \<Longrightarrow> 32 \<le> y" "x = 13 \<Longrightarrow> y \<le> 31" "unat b3 = 128 + z" "z \<le> 63"
  shows "utf8_decode (b1 # b2 # b3 # rest) = code_units ((x * 64 + y) * 64 + z) @ utf8_decode rest"
  using assms by (simp add: Let_def continuation_def)

lemma decode_four:
  assumes "unat b1 = 240 + x" "x \<le> 4" "unat b2 = 128 + y" "y \<le> 63"
    "x = 0 \<Longrightarrow> 16 \<le> y" "x = 4 \<Longrightarrow> y \<le> 15" "unat b3 = 128 + z" "z \<le> 63"
    "unat b4 = 128 + w" "w \<le> 63"
  shows "utf8_decode (b1 # b2 # b3 # b4 # rest) =
         code_units (((x * 64 + y) * 64 + z) * 64 + w) @ utf8_decode rest"
  using assms by (simp add: Let_def continuation_def)

lemma decode_bytes:
  assumes "cp < 1114112" and "\<not> (55296 \<le> cp \<and> cp \<le> 57343)"
  shows "utf8_decode (utf8_bytes cp @ rest) = code_units cp @ utf8_decode rest"
proof -
  consider "cp < 128" | "128 \<le> cp" "cp < 2048" | "2048 \<le> cp" "cp < 65536" | "65536 \<le> cp"
    by linarith
  then show ?thesis
  proof cases
    case 1
    then have b: "utf8_bytes cp = [of_nat cp]" by (simp add: utf8_bytes_def)
    have u: "unat (of_nat cp :: byte) = cp" using 1 by (simp add: byte_of_nat)
    with 1 have "utf8_decode (of_nat cp # rest) = of_nat cp # utf8_decode rest"
      using decode_one [of "of_nat cp" rest] by simp
    with 1 show ?thesis by (simp add: b code_units_def)
  next
    case 2
    then have b: "utf8_bytes cp = [of_nat (192 + cp div 64), of_nat (128 + cp mod 64)]"
      by (simp add: utf8_bytes_def del: of_nat_add)
    note f = two_byte_facts [OF 2]
    have "utf8_decode (of_nat (192 + cp div 64) # of_nat (128 + cp mod 64) # rest) =
          code_units (cp div 64 * 64 + cp mod 64) @ utf8_decode rest"
    proof (rule decode_two)
      show "unat (of_nat (192 + cp div 64) :: byte) = 192 + cp div 64"
        using f(1) by (rule byte_of_nat)
      show "unat (of_nat (128 + cp mod 64) :: byte) = 128 + cp mod 64"
        using f(4) by (rule byte_of_nat)
      show "2 \<le> cp div 64" "cp div 64 \<le> 31" "cp mod 64 \<le> 63" using f by simp_all
    qed
    then show ?thesis by (simp only: b f(6) append.simps)
  next
    case 3
    then have b: "utf8_bytes cp = [of_nat (224 + cp div 4096), of_nat (128 + cp div 64 mod 64),
        of_nat (128 + cp mod 64)]"
      by (simp add: utf8_bytes_def del: of_nat_add)
    note f = three_byte_facts [OF 3]
    have "utf8_decode (of_nat (224 + cp div 4096) # of_nat (128 + cp div 64 mod 64) #
            of_nat (128 + cp mod 64) # rest) =
          code_units ((cp div 4096 * 64 + cp div 64 mod 64) * 64 + cp mod 64) @ utf8_decode rest"
    proof (rule decode_three)
      show "unat (of_nat (224 + cp div 4096) :: byte) = 224 + cp div 4096"
        using f(1) by (rule byte_of_nat)
      show "unat (of_nat (128 + cp div 64 mod 64) :: byte) = 128 + cp div 64 mod 64"
        using f(3) by (rule byte_of_nat)
      show "unat (of_nat (128 + cp mod 64) :: byte) = 128 + cp mod 64"
        using f(5) by (rule byte_of_nat)
      show "cp div 4096 \<le> 15" "cp div 64 mod 64 \<le> 63" "cp mod 64 \<le> 63" using f by simp_all
      show "32 \<le> cp div 64 mod 64" if "cp div 4096 = 0" using that by (rule f(8))
      show "cp div 64 mod 64 \<le> 31" if "cp div 4096 = 13"
      proof -
        from that have "13 * 4096 \<le> cp" by (simp add: div_4096)
        moreover have "cp < 57344"
        proof (rule ccontr)
          assume "\<not> cp < 57344"
          then have "57344 div 4096 \<le> cp div 4096" by (intro div_le_mono) simp
          with that show False by simp
        qed
        ultimately have "cp < 55296" using assms(2) by simp
        with that show ?thesis by (rule f(9))
      qed
    qed
    then show ?thesis by (simp only: b f(7) append.simps)
  next
    case 4
    then have b: "utf8_bytes cp = [of_nat (240 + cp div 262144), of_nat (128 + cp div 4096 mod 64),
        of_nat (128 + cp div 64 mod 64), of_nat (128 + cp mod 64)]"
      by (simp add: utf8_bytes_def del: of_nat_add)
    note f = four_byte_facts [OF 4 assms(1)]
    have "utf8_decode (of_nat (240 + cp div 262144) # of_nat (128 + cp div 4096 mod 64) #
            of_nat (128 + cp div 64 mod 64) # of_nat (128 + cp mod 64) # rest) =
          code_units (((cp div 262144 * 64 + cp div 4096 mod 64) * 64 + cp div 64 mod 64) * 64 +
                      cp mod 64) @ utf8_decode rest"
    proof (rule decode_four)
      show "unat (of_nat (240 + cp div 262144) :: byte) = 240 + cp div 262144"
        using f(1) by (rule byte_of_nat)
      show "unat (of_nat (128 + cp div 4096 mod 64) :: byte) = 128 + cp div 4096 mod 64"
        using f(3) by (rule byte_of_nat)
      show "unat (of_nat (128 + cp div 64 mod 64) :: byte) = 128 + cp div 64 mod 64"
        using f(5) by (rule byte_of_nat)
      show "unat (of_nat (128 + cp mod 64) :: byte) = 128 + cp mod 64"
        using f(7) by (rule byte_of_nat)
      show "cp div 262144 \<le> 4" "cp div 4096 mod 64 \<le> 63" "cp div 64 mod 64 \<le> 63" "cp mod 64 \<le> 63"
        using f by simp_all
      show "16 \<le> cp div 4096 mod 64" if "cp div 262144 = 0" using that by (rule f(10))
      show "cp div 4096 mod 64 \<le> 15" if "cp div 262144 = 4" using that by (rule f(11))
    qed
    then show ?thesis by (simp only: b f(9) append.simps)
  qed
qed

lemma code_units_unit:
  "\<not> is_high_surrogate c \<Longrightarrow> \<not> is_low_surrogate c \<Longrightarrow> code_units (unat c) = [c]"
  using unit_bound [of c] by (simp add: code_units_def)

lemma decode_unit:
  assumes "\<not> is_high_surrogate c" "\<not> is_low_surrogate c"
  shows "utf8_decode (utf8_unit c @ rest) = c # utf8_decode rest"
proof -
  have "unat c < 1114112" using unit_bound [of c] by simp
  moreover have "\<not> (55296 \<le> unat c \<and> unat c \<le> 57343)"
    using assms by (auto simp: is_high_surrogate_def is_low_surrogate_def)
  ultimately have "utf8_decode (utf8_bytes (unat c) @ rest) = code_units (unat c) @ utf8_decode rest"
    by (rule decode_bytes)
  with assms show ?thesis by (simp add: utf8_unit_def code_units_unit)
qed

lemma decode_pair:
  assumes "is_high_surrogate h" "is_low_surrogate l"
  shows "utf8_decode (utf8_pair h l @ rest) = h # l # utf8_decode rest"
proof -
  let ?a = "unat h - 55296"
  let ?b = "unat l - 56320"
  let ?cp = "65536 + ?a * 1024 + ?b"
  from assms have a: "?a \<le> 1023" "unat h = 55296 + ?a" and b: "?b \<le> 1023" "unat l = 56320 + ?b"
    by (auto simp: is_high_surrogate_def is_low_surrogate_def)
  have "?a * 1024 \<le> 1023 * 1024" using a(1) by (rule mult_le_mono1)
  with b(1) have lt: "?cp < 1114112" by simp
  have ns: "\<not> (55296 \<le> ?cp \<and> ?cp \<le> 57343)" by simp
  have d: "(?cp - 65536) div 1024 = ?a" "(?cp - 65536) mod 1024 = ?b" using b(1) by simp_all
  have "code_units ?cp = [of_nat (55296 + ?a), of_nat (56320 + ?b)]"
    by (simp only: code_units_def d) simp
  also have "\<dots> = [h, l]" by (simp only: a(2) [symmetric] b(2) [symmetric]) simp
  finally have "code_units ?cp = [h, l]" .
  with decode_bytes [OF lt ns, of rest] show ?thesis by (simp add: utf8_pair_def)
qed

lemma utf8_round_trip: "well_formed s \<Longrightarrow> utf8_decode (utf8_encode s) = s"
proof (induction s rule: utf8_encode.induct)
  case 1
  show ?case by simp
next
  case (2 c)
  then show ?case using decode_unit [of c "[]"] by simp
next
  case (3 c d cs)
  show ?case
  proof (cases "is_high_surrogate c \<and> is_low_surrogate d")
    case True
    with 3 show ?thesis by (simp add: decode_pair)
  next
    case False
    with 3 show ?thesis by (simp add: decode_unit)
  qed
qed

section \<open>Base64\<close>

lemma index_of_nth: "distinct xs \<Longrightarrow> n < length xs \<Longrightarrow> index_of (xs ! n) xs = Some n"
proof (induction xs arbitrary: n)
  case Nil
  then show ?case by simp
next
  case (Cons x xs)
  show ?case
  proof (cases n)
    case 0
    then show ?thesis by simp
  next
    case (Suc m)
    with Cons.prems have "xs ! m \<noteq> x" by auto
    with Suc Cons show ?thesis by simp
  qed
qed

lemma b64_alphabet_distinct: "distinct b64_alphabet"
  by (simp add: b64_alphabet_def ascii_def)

lemma b64_alphabet_length: "length b64_alphabet = 64"
  by (simp add: b64_alphabet_def ascii_def)

lemma b64_alphabet_special:
  "EQUALS \<notin> set b64_alphabet" "MINUS \<notin> set b64_alphabet" "UNDERSCORE \<notin> set b64_alphabet"
  by (simp_all add: b64_alphabet_def ascii_def EQUALS_def MINUS_def UNDERSCORE_def)

lemma b64_char_in: "b64_char n \<in> set b64_alphabet"
  by (simp add: b64_char_def b64_alphabet_length)

lemma b64_value_char: "n < 64 \<Longrightarrow> b64_value (b64_char n) = Some n"
  by (simp add: b64_value_def b64_char_def index_of_nth b64_alphabet_distinct b64_alphabet_length)

lemma replace_url: "replace_all SLASH UNDERSCORE (replace_all PLUS MINUS s) = map url s"
  by (simp add: replace_all_def url_def)

lemma replace_unurl: "replace_all UNDERSCORE SLASH (replace_all MINUS PLUS s) = map unurl s"
  by (simp add: replace_all_def unurl_def)

lemma unurl_url: "c \<in> set b64_alphabet \<Longrightarrow> unurl (url c) = c"
proof -
  assume "c \<in> set b64_alphabet"
  with b64_alphabet_special have "c \<noteq> MINUS" "c \<noteq> UNDERSCORE" by auto
  then show ?thesis
    by (simp add: url_def unurl_def PLUS_def MINUS_def SLASH_def UNDERSCORE_def)
qed

lemma url_not_equals: "c \<in> set b64_alphabet \<Longrightarrow> url c \<noteq> EQUALS"
proof -
  assume "c \<in> set b64_alphabet"
  with b64_alphabet_special have "c \<noteq> EQUALS" by auto
  then show ?thesis
    by (simp add: url_def EQUALS_def MINUS_def UNDERSCORE_def)
qed

lemma url_equals: "url EQUALS = EQUALS"
  by (simp add: url_def EQUALS_def PLUS_def SLASH_def MINUS_def)

lemma strip_padding_append:
  assumes "xs \<noteq> []" and "last xs \<noteq> EQUALS"
  shows "strip_padding (xs @ ys) = xs @ strip_padding ys"
proof -
  have "dropWhile (\<lambda>c. c = EQUALS) (rev xs) = rev xs"
    using assms by (cases "rev xs") (auto simp: last_rev [symmetric] simp del: last_rev)
  then show ?thesis
    by (simp add: strip_padding_def dropWhile_append)
qed

lemma strip_padding_pad: "strip_padding (replicate n EQUALS) = []"
  by (simp add: strip_padding_def)

lemma byte_bound: "unat (a :: byte) < 256"
  using unsigned_less [of a, where 'a = nat] by simp

lemma byte_div: "unat (a :: byte) div 4 < 64" "unat (a :: byte) div 16 < 16" "unat (a :: byte) div 64 < 4"
  using byte_bound [of a] by simp_all

lemma sextet_bounds:
  fixes x y :: nat
  shows "y < 16 \<Longrightarrow> x mod 4 * 16 + y < 64" "y < 4 \<Longrightarrow> x mod 16 * 4 + y < 64"
proof -
  have "x mod 4 < 4" "x mod 16 < 16" by simp_all
  then have "x mod 4 * 16 \<le> 48" "x mod 16 * 4 \<le> 60" by simp_all
  then show "y < 16 \<Longrightarrow> x mod 4 * 16 + y < 64" "y < 4 \<Longrightarrow> x mod 16 * 4 + y < 64" by simp_all
qed

lemma sextets:
  fixes a b c :: byte
  shows "unat a div 4 < 64" "unat a mod 4 * 16 + unat b div 16 < 64"
    "unat b mod 16 * 4 + unat c div 64 < 64" "unat c mod 64 < 64"
    "unat a mod 4 * 16 < 64" "unat b mod 16 * 4 < 64"
  using sextet_bounds(1) [of "unat b div 16" "unat a"] sextet_bounds(2) [of "unat c div 64" "unat b"]
    sextet_bounds(1) [of 0 "unat a"] sextet_bounds(2) [of 0 "unat b"]
  by (simp_all add: byte_div)

lemma regroup:
  fixes x y :: nat
  shows "y < 16 \<Longrightarrow> x div 4 * 4 + (x mod 4 * 16 + y) div 16 = x"
    "y < 16 \<Longrightarrow> (x mod 4 * 16 + y) mod 16 = y"
    "y < 4 \<Longrightarrow> (x mod 16 * 4 + y) div 4 = x mod 16"
    "y < 4 \<Longrightarrow> (x mod 16 * 4 + y) mod 4 = y"
  by simp_all

lemma bytes_back:
  fixes a b c :: byte
  shows "of_nat (unat a div 4 * 4 + (unat a mod 4 * 16 + unat b div 16) div 16) = a"
    "of_nat ((unat a mod 4 * 16 + unat b div 16) mod 16 * 16 + (unat b mod 16 * 4 + unat c div 64) div 4) = b"
    "of_nat ((unat b mod 16 * 4 + unat c div 64) mod 4 * 64 + unat c mod 64) = c"
    "of_nat (unat a div 4 * 4 + (unat a mod 4 * 16) div 16) = a"
    "of_nat ((unat a mod 4 * 16 + unat b div 16) mod 16 * 16 + (unat b mod 16 * 4) div 4) = b"
  using regroup(1) [of 0 "unat a"] regroup(3) [of 0 "unat b"]
  by (simp_all add: regroup byte_div)

lemma b64_char_not_equals: "b64_char n \<noteq> EQUALS"
  using b64_char_in [of n] b64_alphabet_special(1) by auto

lemma b64_decode_quad:
  assumes "n1 < 64" "n2 < 64" "n3 < 64" "n4 < 64"
  shows "b64_decode (b64_char n1 # b64_char n2 # b64_char n3 # b64_char n4 # cs) =
     map_option (\<lambda>bs. of_nat (n1 * 4 + n2 div 16) # of_nat (n2 mod 16 * 16 + n3 div 4) #
                      of_nat (n3 mod 4 * 64 + n4) # bs) (b64_decode cs)"
  using assms by (simp add: b64_value_char b64_char_not_equals)

lemma b64_decode_two:
  assumes "n1 < 64" "n2 < 64"
  shows "b64_decode [b64_char n1, b64_char n2, EQUALS, EQUALS] = Some [of_nat (n1 * 4 + n2 div 16)]"
  using assms by (simp add: b64_value_char)

lemma b64_decode_three:
  assumes "n1 < 64" "n2 < 64" "n3 < 64"
  shows "b64_decode [b64_char n1, b64_char n2, b64_char n3, EQUALS] =
     Some [of_nat (n1 * 4 + n2 div 16), of_nat (n2 mod 16 * 16 + n3 div 4)]"
  using assms by (simp add: b64_value_char b64_char_not_equals)

lemma restore_padding_quad:
  "restore_padding (c1 # c2 # c3 # c4 # s) = c1 # c2 # c3 # c4 # restore_padding s"
  by (simp add: restore_padding_def)

lemma strip_url_quad:
  assumes "c4 \<in> set b64_alphabet"
  shows "strip_padding (url c1 # url c2 # url c3 # url c4 # map url s) =
         url c1 # url c2 # url c3 # url c4 # strip_padding (map url s)"
  using strip_padding_append [of "[url c1, url c2, url c3, url c4]" "map url s"]
    url_not_equals [OF assms] by simp

lemma strip_url_two:
  assumes "c2 \<in> set b64_alphabet"
  shows "strip_padding [url c1, url c2, EQUALS, EQUALS] = [url c1, url c2]"
  using strip_padding_append [of "[url c1, url c2]" "replicate 2 EQUALS"]
    url_not_equals [OF assms] strip_padding_pad [of 2]
  by (simp add: url_equals numeral_2_eq_2)

lemma strip_url_three:
  assumes "c3 \<in> set b64_alphabet"
  shows "strip_padding [url c1, url c2, url c3, EQUALS] = [url c1, url c2, url c3]"
  using strip_padding_append [of "[url c1, url c2, url c3]" "replicate 1 EQUALS"]
    url_not_equals [OF assms] strip_padding_pad [of 1]
  by (simp add: url_equals)

lemma base64_roundtrip:
  "b64_decode (restore_padding (map unurl (strip_padding (map url (base64 bs))))) = Some bs"
proof (induction bs rule: base64.induct)
  case 1
  show ?case by (simp add: strip_padding_def restore_padding_def)
next
  case (2 a)
  have "restore_padding (map unurl (strip_padding (map url (base64 [a])))) =
        [b64_char (unat a div 4), b64_char (unat a mod 4 * 16), EQUALS, EQUALS]"
    by (simp add: strip_url_two b64_char_in unurl_url restore_padding_def url_equals numeral_2_eq_2)
  then show ?case by (simp only: b64_decode_two sextets bytes_back)
next
  case (3 a b)
  have "restore_padding (map unurl (strip_padding (map url (base64 [a, b])))) =
        [b64_char (unat a div 4), b64_char (unat a mod 4 * 16 + unat b div 16),
         b64_char (unat b mod 16 * 4), EQUALS]"
    by (simp add: strip_url_three b64_char_in unurl_url restore_padding_def url_equals)
  then show ?case by (simp only: b64_decode_three sextets bytes_back)
next
  case (4 a b c bs)
  have "restore_padding (map unurl (strip_padding (map url (base64 (a # b # c # bs))))) =
        b64_char (unat a div 4) # b64_char (unat a mod 4 * 16 + unat b div 16) #
        b64_char (unat b mod 16 * 4 + unat c div 64) # b64_char (unat c mod 64) #
        restore_padding (map unurl (strip_padding (map url (base64 bs))))"
    by (simp add: strip_url_quad b64_char_in unurl_url restore_padding_quad)
  then show ?case by (simp only: b64_decode_quad sextets bytes_back 4 option.map)
qed

section \<open>Serialized header lines\<close>

lemma colon_space: "ascii '': '' = [COLON, SPACE]"
  by (simp add: ascii_def COLON_def SPACE_def)

lemma set_trim: "set (trim s) \<subseteq> set s"
proof
  fix c
  assume "c \<in> set (trim s)"
  then have "c \<in> set (dropWhile is_whitespace (rev (dropWhile is_whitespace s)))"
    by (simp add: trim_def)
  then have "c \<in> set (rev (dropWhile is_whitespace s))" by (rule set_dropWhileD)
  then have "c \<in> set (dropWhile is_whitespace s)" by simp
  then show "c \<in> set s" by (rule set_dropWhileD)
qed

lemma trim_hd: "trim s \<noteq> [] \<Longrightarrow> \<not> is_whitespace (hd (trim s))"
proof -
  let ?t = "dropWhile is_whitespace s"
  assume ne: "trim s \<noteq> []"
  have t: "?t = trim s @ rev (takeWhile is_whitespace (rev ?t))"
    using rev_append [of "takeWhile is_whitespace (rev ?t)" "dropWhile is_whitespace (rev ?t)"]
    by (simp add: trim_def)
  with ne have "hd ?t = hd (trim s)" by (metis hd_append2)
  moreover have "?t \<noteq> []"
  proof
    assume "?t = []"
    with t have "trim s = []" by (simp del: dropWhile_eq_Nil_conv)
    with ne show False by simp
  qed
  then have "\<not> is_whitespace (hd ?t)" by (rule hd_dropWhile)
  ultimately show ?thesis by simp
qed

lemma is_whitespace_SPACE: "is_whitespace SPACE"
  by (simp add: is_whitespace_def SPACE_def)

lemma header_lines_subset: "set (header_lines content) \<subseteq> set (split_on NL content)"
  unfolding header_lines_def by (auto dest: set_takeWhileD)

lemma header_pair_props:
  assumes "header_pair l = Some (k, v)"
  shows "set k \<subseteq> set l" "set v \<subseteq> set l" "COLON \<notin> set k" "v \<noteq> [] \<Longrightarrow> \<not> is_whitespace (hd v)"
proof -
  from assms have k: "k = trim (takeWhile (\<lambda>c. c \<noteq> COLON) l)"
    and v: "v = trim (tl (dropWhile (\<lambda>c. c \<noteq> COLON) l))"
    by (auto simp: header_pair_def split: if_splits)
  show "set k \<subseteq> set l"
    using set_trim [of "takeWhile (\<lambda>c. c \<noteq> COLON) l"] set_takeWhileD [of _ "\<lambda>c. c \<noteq> COLON" l]
    unfolding k by blast
  have "set (tl (dropWhile (\<lambda>c. c \<noteq> COLON) l)) \<subseteq> set l"
    using list.set_sel(2) [of "dropWhile (\<lambda>c. c \<noteq> COLON) l"] set_dropWhileD [of _ "\<lambda>c. c \<noteq> COLON" l]
    by (cases "dropWhile (\<lambda>c. c \<noteq> COLON) l") (auto simp del: dropWhile_eq_Nil_conv)
  then show "set v \<subseteq> set l"
    using set_trim [of "tl (dropWhile (\<lambda>c. c \<noteq> COLON) l)"] unfolding v by blast
  show "COLON \<notin> set k"
    using set_trim [of "takeWhile (\<lambda>c. c \<noteq> COLON) l"] set_takeWhileD [of COLON "\<lambda>c. c \<noteq> COLON" l]
    unfolding k by blast
  show "v \<noteq> [] \<Longrightarrow> \<not> is_whitespace (hd v)"
    unfolding v by (rule trim_hd)
qed

lemma written_pairs_props:
  assumes "(k, v) \<in> set (written_pairs content)"
  shows "NL \<notin> set k" "NL \<notin> set v" "COLON \<notin> set k" "v \<noteq> [] \<Longrightarrow> \<not> is_whitespace (hd v)"
proof -
  from assms obtain l where l: "l \<in> set (header_lines content)" and p: "header_pair l = Some (k, v)"
    by (auto simp: written_pairs_def List.map_filter_def)
  from l have "l \<in> set (split_on NL content)" using header_lines_subset by blast
  then have "NL \<notin> set l" by (rule split_on_pieces)
  with header_pair_props [OF p]
  show "NL \<notin> set k" "NL \<notin> set v" "COLON \<notin> set k" "v \<noteq> [] \<Longrightarrow> \<not> is_whitespace (hd v)"
    by auto
qed

lemma parsed_entry_written:
  assumes "(k, v) \<in> set (parsed_headers content)"
  shows "(k, v) \<in> set (written_pairs content)" "k \<noteq> PROTO" "last_written content k = Some v"
proof -
  have "obj_get (parsed_headers content) k = Some v"
    using assms distinct_parsed [of content] by (simp add: obj_get_def)
  then have "k \<noteq> PROTO \<and> last_written content k = Some v"
    by (simp add: obj_get_parsed split: if_splits)
  then show "k \<noteq> PROTO" "last_written content k = Some v" by simp_all
  then have "map_of (rev (written_pairs content)) k = Some v" by (simp add: last_written_def)
  then have "(k, v) \<in> set (rev (written_pairs content))" by (rule map_of_SomeD)
  then show "(k, v) \<in> set (written_pairs content)" by simp
qed

lemma set_Object_keys: "set (Object_keys hdrs) = fst ` set hdrs"
  by (auto simp: Object_keys_def)

lemma distinct_Object_keys: "distinct (map fst hdrs) \<Longrightarrow> distinct (Object_keys hdrs)"
  by (auto simp: Object_keys_def)

lemma Object_keys_no_index:
  "\<not> list_ex is_array_index (map fst hdrs) \<Longrightarrow> Object_keys hdrs = map fst hdrs"
  by (simp add: Object_keys_def list_ex_iff filter_empty_conv[THEN iffD2] cong: filter_cong)

lemma header_line_own:
  "obj_get hdrs k = Some v \<Longrightarrow> header_line hdrs k = k @ [COLON, SPACE] @ v"
  by (simp add: header_line_def or_empty_def falsy_def colon_space)

lemma header_line_parsed:
  assumes "k \<in> set (Object_keys (parsed_headers content))"
  shows "header_line (parsed_headers content) k = expected_line content k"
proof -
  from assms obtain v where kv: "(k, v) \<in> set (parsed_headers content)"
    by (auto simp: set_Object_keys)
  then have "obj_get (parsed_headers content) k = Some v"
    using distinct_parsed [of content] by (simp add: obj_get_def)
  moreover have "last_written content k = Some v" using kv by (rule parsed_entry_written)
  ultimately show ?thesis by (simp add: header_line_own expected_line_def)
qed

lemma key_of_line:
  "COLON \<notin> set k \<Longrightarrow> takeWhile (\<lambda>c. c \<noteq> COLON) (k @ [COLON, SPACE] @ v) = k"
  by (induction k) auto

lemma one_space_line:
  assumes "COLON \<notin> set k" and "v \<noteq> [] \<Longrightarrow> \<not> is_whitespace (hd v)"
  shows "one_space_after_colon (k @ [COLON, SPACE] @ v)"
proof -
  have "dropWhile (\<lambda>c. c \<noteq> COLON) (k @ [COLON, SPACE] @ v) = COLON # SPACE # v"
    using assms(1) by (simp add: dropWhile_append)
  moreover have "r \<noteq> SPACE" if "v = r # rest" for r rest
    using assms(2) that is_whitespace_SPACE by auto
  ultimately show ?thesis
    by (auto simp: one_space_after_colon_def split: list.splits)
qed

lemma parsed_success:
  assumes "fs templateFile = Some content" and "parseEmailTemplate fs templateFile = Inr parsed"
  shows "headers parsed = parsed_headers content"
    and "body parsed = join_with [NL] (body_lines content)"
    and "has_blank_line content"
    and "\<forall>field\<in>set MANDATORY_FIELDS. \<not> falsy (obj_get (parsed_headers content) field)"
proof -
  from assms have c: "parse_content content = Inr parsed" by (simp add: parseEmailTemplate_def)
  then show "has_blank_line content" by (simp add: parse_content_cases split: if_splits)
  from c have m: "filter (\<lambda>field. falsy (obj_get (parsed_headers content) field)) MANDATORY_FIELDS = []"
    by (simp add: parse_content_cases split: if_splits)
  then show "\<forall>field\<in>set MANDATORY_FIELDS. \<not> falsy (obj_get (parsed_headers content) field)"
    by (simp add: filter_empty_conv)
  from c m show "headers parsed = parsed_headers content"
    and "body parsed = join_with [NL] (body_lines content)"
    by (auto simp: parse_content_cases split: if_splits)
qed

lemma filter_key_distinct:
  "distinct (map fst xs) \<Longrightarrow> (k, v) \<in> set xs \<Longrightarrow> filter (\<lambda>entry. fst entry = k) xs = [(k, v)]"
proof (induction xs)
  case Nil
  then show ?case by simp
next
  case (Cons x xs)
  show ?case
  proof (cases "x = (k, v)")
    case True
    with Cons.prems have "k \<notin> fst ` set xs" by simp
    then have "filter (\<lambda>entry. fst entry = k) xs = []"
      by (auto simp: filter_empty_conv)
    with True show ?thesis by simp
  next
    case False
    with Cons.prems have m: "(k, v) \<in> set xs" by simp
    then have "k \<in> fst ` set xs" by (auto intro: rev_image_eqI)
    with Cons.prems have "fst x \<noteq> k" by auto
    with Cons m show ?thesis by simp
  qed
qed

lemma filter_eq_distinct: "distinct xs \<Longrightarrow> k \<in> set xs \<Longrightarrow> filter (\<lambda>x. x = k) xs = [k]"
proof (induction xs)
  case Nil
  then show ?case by simp
next
  case (Cons x xs)
  show ?case
  proof (cases "x = k")
    case True
    with Cons.prems have "k \<notin> set xs" by simp
    then have "filter (\<lambda>x. x = k) xs = []" by (auto simp: filter_empty_conv)
    with True show ?thesis by simp
  next
    case False
    with Cons show ?thesis by simp
  qed
qed

lemma parsed_line_form:
  assumes "k \<in> set (Object_keys (parsed_headers content))"
  shows "\<exists>v. header_line (parsed_headers content) k = k @ [COLON, SPACE] @ v \<and>
             NL \<notin> set k \<and> NL \<notin> set v \<and> COLON \<notin> set k \<and> (v \<noteq> [] \<longrightarrow> \<not> is_whitespace (hd v))"
proof -
  from assms obtain v where kv: "(k, v) \<in> set (parsed_headers content)"
    by (auto simp: set_Object_keys)
  then have "obj_get (parsed_headers content) k = Some v"
    using distinct_parsed [of content] by (simp add: obj_get_def)
  then have "header_line (parsed_headers content) k = k @ [COLON, SPACE] @ v"
    by (rule header_line_own)
  moreover from kv have "(k, v) \<in> set (written_pairs content)" by (rule parsed_entry_written)
  note written_pairs_props [OF this]
  ultimately show ?thesis by blast
qed

lemma parsed_lines_one_space:
  "list_all one_space_after_colon
     (map (header_line (parsed_headers content)) (Object_keys (parsed_headers content)))"
proof -
  have "one_space_after_colon (header_line (parsed_headers content) k)"
    if "k \<in> set (Object_keys (parsed_headers content))" for k
  proof -
    from parsed_line_form [OF that] obtain v where
      "header_line (parsed_headers content) k = k @ [COLON, SPACE] @ v"
      "COLON \<notin> set k" "v \<noteq> [] \<longrightarrow> \<not> is_whitespace (hd v)" by blast
    then show ?thesis using one_space_line [of k v] by simp
  qed
  then show ?thesis by (simp add: list_all_iff)
qed

lemma parsed_lines_no_newline:
  "\<forall>l\<in>set (map (header_line (parsed_headers content)) (Object_keys (parsed_headers content))).
     NL \<notin> set l"
proof -
  have "NL \<notin> set (header_line (parsed_headers content) k)"
    if "k \<in> set (Object_keys (parsed_headers content))" for k
  proof -
    from parsed_line_form [OF that] obtain v where
      "header_line (parsed_headers content) k = k @ [COLON, SPACE] @ v"
      "NL \<notin> set k" "NL \<notin> set v" by blast
    then show ?thesis by (simp add: NL_def COLON_def SPACE_def)
  qed
  then show ?thesis by simp
qed

section \<open>Evaluation of concrete templates\<close>

lemmas string_defs = ascii_def NL_def COLON_def SPACE_def PROTO_def trim_def is_whitespace_def

lemmas parser_defs = parseEmailTemplate_def parse_content_def headerEndIndex_def
  parse_header_def obj_set_def obj_get_def falsy_def MANDATORY_FIELDS_def

lemmas spec_defs = has_blank_line_def header_lines_def header_pair_def written_pairs_def
  last_written_def List.map_filter_simps

lemmas message_defs = message_def messageParts_def header_line_def or_empty_def obj_get_def
  falsy_def Object_keys_def is_array_index_def is_digit_def ascii_def NL_def

lemmas utf8_defs = utf8_unit_def utf8_bytes_def is_high_surrogate_def is_low_surrogate_def

text \<open>The example of the specification: the template, its parse and its raw message.\<close>

lemma example_parse:
  "parseEmailTemplate
     [ascii ''email.html.eml'' \<mapsto>
        ascii ''From: a@x.com\<newline>To: b@x.com\<newline>Subject: Hi\<newline>\<newline>Hello there'']
     (ascii ''email.html.eml'') =
   Inr \<lparr>headers = [(ascii ''From'', ascii ''a@x.com''), (ascii ''To'', ascii ''b@x.com''),
                   (ascii ''Subject'', ascii ''Hi'')],
        body = ascii ''Hello there''\<rparr>"
  by (simp add: string_defs parser_defs)

lemma example_message:
  "message
     [(ascii ''From'', ascii ''a@x.com''), (ascii ''To'', ascii ''b@x.com''),
      (ascii ''Subject'', ascii ''Hi'')]
     (ascii ''Hello there'') =
   ascii ''From: a@x.com\<newline>To: b@x.com\<newline>Subject: Hi\<newline>\<newline>Hello there''"
  by (simp add: message_def messageParts_def header_line_def or_empty_def obj_get_def falsy_def
      Object_keys_def is_array_index_def is_digit_def ascii_def NL_def)

lemma example_bytes:
  "utf8_encode (ascii ''From: a@x.com\<newline>To: b@x.com\<newline>Subject: Hi\<newline>\<newline>Hello there'') =
   [70, 114, 111, 109, 58, 32, 97, 64, 120, 46, 99, 111, 109, 10, 84, 111, 58, 32, 98, 64, 120,
    46, 99, 111, 109, 10, 83, 117, 98, 106, 101, 99, 116, 58, 32, 72, 105, 10, 10, 72, 101, 108,
    108, 111, 32, 116, 104, 101, 114, 101]"
  by (simp add: ascii_def utf8_unit_def utf8_bytes_def is_high_surrogate_def is_low_surrogate_def)

lemma example_raw:
  "createMessage
     [(ascii ''From'', ascii ''a@x.com''), (ascii ''To'', ascii ''b@x.com''),
      (ascii ''Subject'', ascii ''Hi'')]
     (ascii ''Hello there'') =
   ascii ''RnJvbTogYUB4LmNvbQpUbzogYkB4LmNvbQpTdWJqZWN0OiBIaQoKSGVsbG8gdGhlcmU''"
  unfolding createMessage_def example_message example_bytes
  by (simp add: b64_char_def b64_alphabet_def ascii_def EQUALS_def PLUS_def MINUS_def SLASH_def
      UNDERSCORE_def replace_all_def strip_padding_def)

lemma example_well_formed:
  "well_formed (ascii ''From: a@x.com\<newline>To: b@x.com\<newline>Subject: Hi\<newline>\<newline>Hello there'')"
  by (simp add: ascii_def is_high_surrogate_def is_low_surrogate_def)

section \<open>The serialized text\<close>

lemma join_lines_text:
  "join_with [NL] (ls @ [[], bdy]) = concat (map (\<lambda>l. l @ [NL]) ls) @ NL # bdy"
proof (induction ls)
  case Nil
  show ?case by simp
next
  case (Cons l ls)
  have "join_with [NL] ((l # ls) @ [[], bdy]) = l @ [NL] @ join_with [NL] (ls @ [[], bdy])"
    using join_with_Cons [of "ls @ [[], bdy]" "[NL]" l] by simp
  with Cons show ?case by simp
qed

lemma message_serialized: "message hdrs bdy = serialized_text (emitted_headers hdrs) bdy"
proof -
  have "map (\<lambda>l. l @ [NL]) (map (header_line hdrs) (Object_keys hdrs)) =
        map (\<lambda>(k, v). k @ [COLON, SPACE] @ v @ [NL]) (emitted_headers hdrs)"
    by (simp add: emitted_headers_def header_line_def colon_space comp_def)
  then show ?thesis
    by (simp only: message_def messageParts_def join_lines_text serialized_text_def)
qed

lemma payload_bytes:
  "b64url_decode (createMessage hdrs bdy) = Some (utf8_encode (message hdrs bdy))"
  by (simp add: b64url_decode_def createMessage_def replace_url replace_unurl base64_roundtrip)

lemma emitted_headers_plain:
  assumes "distinct (map fst hdrs)" and "\<not> list_ex is_array_index (map fst hdrs)"
  shows "emitted_headers hdrs = hdrs"
proof -
  have "or_empty (obj_get hdrs (fst e)) = snd e" if "e \<in> set hdrs" for e
  proof -
    from that assms(1) have "map_of hdrs (fst e) = Some (snd e)" by simp
    then show ?thesis by (simp add: obj_get_def or_empty_def falsy_def)
  qed
  then have "map ((\<lambda>key. (key, or_empty (obj_get hdrs key))) \<circ> fst) hdrs = hdrs"
    by (intro map_idI) simp
  then show ?thesis
    using Object_keys_no_index [OF assms(2)] by (simp add: emitted_headers_def)
qed




lemma split_join_prefix:
  assumes "\<forall>l\<in>set xs. sep \<notin> set l" and "ys \<noteq> []"
  shows "split_on sep (join_with [sep] (xs @ ys)) = xs @ split_on sep (join_with [sep] ys)"
  using assms(1)
proof (induction xs)
  case Nil
  show ?case by simp
next
  case (Cons x xs)
  have "join_with [sep] ((x # xs) @ ys) = x @ sep # join_with [sep] (xs @ ys)"
    using assms(2) join_with_Cons [of "xs @ ys" "[sep]" x] by simp
  with Cons show ?case by (simp add: split_on_append)
qed

lemma trim_nonempty:
  assumes "c \<in> set l" and "\<not> is_whitespace c"
  shows "trim l \<noteq> []"
proof -
  let ?t = "dropWhile is_whitespace l"
  from assms have ne: "?t \<noteq> []" by (auto simp: dropWhile_eq_Nil_conv)
  then have "\<not> is_whitespace (hd ?t)" by (rule hd_dropWhile)
  moreover have "hd ?t \<in> set (rev ?t)" using ne by simp
  ultimately have "dropWhile is_whitespace (rev ?t) \<noteq> []"
    by (auto simp: dropWhile_eq_Nil_conv simp del: set_rev)
  then show ?thesis by (simp add: trim_def)
qed

lemma not_whitespace_COLON: "\<not> is_whitespace COLON"
  by (simp add: is_whitespace_def COLON_def)

lemma header_lines_message:
  "header_lines (message (parsed_headers content) bdy) =
   map (header_line (parsed_headers content)) (Object_keys (parsed_headers content))"
proof -
  let ?ser = "map (header_line (parsed_headers content)) (Object_keys (parsed_headers content))"
  have nl: "\<forall>l\<in>set ?ser. NL \<notin> set l" by (rule parsed_lines_no_newline)
  have "split_on NL (join_with [NL] (?ser @ [[], bdy])) =
        ?ser @ split_on NL (join_with [NL] [[], bdy])"
    using nl by (rule split_join_prefix) simp
  then have s: "split_on NL (message (parsed_headers content) bdy) = ?ser @ [] # split_on NL bdy"
    by (simp add: message_def messageParts_def)
  have "trim l \<noteq> []" if "l \<in> set ?ser" for l
  proof -
    from that obtain k where k: "k \<in> set (Object_keys (parsed_headers content))"
      and l: "l = header_line (parsed_headers content) k" by auto
    from parsed_line_form [OF k] l obtain v where "l = k @ [COLON, SPACE] @ v" by auto
    then have "COLON \<in> set l" by simp
    then show ?thesis using not_whitespace_COLON by (rule trim_nonempty)
  qed
  then have "takeWhile (\<lambda>l. trim l \<noteq> []) (?ser @ [] # split_on NL bdy) =
        ?ser @ takeWhile (\<lambda>l. trim l \<noteq> []) ([] # split_on NL bdy)"
    by (rule takeWhile_append2)
  moreover have "trim [] = []" by (simp add: trim_def)
  ultimately have "takeWhile (\<lambda>l. trim l \<noteq> []) (?ser @ [] # split_on NL bdy) = ?ser"
    by simp
  then show ?thesis by (simp add: header_lines_def s)
qed

section \<open>The claims\<close>

text \<open>
  Claim C1, as amended. For every template that has a line whose trimmed text is
  empty and in which the values written last for \<^verbatim>\<open>From\<close>, \<^verbatim>\<open>To\<close> and
  \<^verbatim>\<open>Subject\<close> are not empty, \<open>parseEmailTemplate\<close> succeeds. The returned headers have
  one entry for each key other than \<^verbatim>\<open>__proto__\<close> that is written on a header line,
  with the value written last for it, and no other entry. The body is the text after
  the first blank line and its line break, character for character: the template is
  the header lines and the blank line, then a line break, then the body (or the
  template ends with the blank line and the body is empty).
\<close>

theorem parse_well_formed:
  assumes "fs templateFile = Some content"
    and "has_blank_line content"
    and "\<forall>field\<in>set MANDATORY_FIELDS. \<not> falsy (last_written content field)"
  shows "\<exists>parsed blank.
      parseEmailTemplate fs templateFile = Inr parsed \<and>
      distinct (map fst (headers parsed)) \<and>
      set (headers parsed) = {(k, v). k \<noteq> PROTO \<and> last_written content k = Some v} \<and>
      trim blank = [] \<and> NL \<notin> set blank \<and>
      (content = join_with [NL] (header_lines content @ [blank]) @ NL # body parsed \<or>
       content = join_with [NL] (header_lines content @ [blank]) \<and> body parsed = [])"
proof -
  have "filter (\<lambda>field. falsy (obj_get (parsed_headers content) field)) MANDATORY_FIELDS = []"
    using assms(3) by (simp add: missing_fields_written filter_empty_conv)
  then have p: "parseEmailTemplate fs templateFile =
      Inr \<lparr>headers = parsed_headers content, body = join_with [NL] (body_lines content)\<rparr>"
    using assms(1,2) by (simp add: parseEmailTemplate_def parse_content_cases)
  have s: "set (parsed_headers content) = {(k, v). k \<noteq> PROTO \<and> last_written content k = Some v}"
  proof -
    have "\<And>k v. (k, v) \<in> set (parsed_headers content) \<longleftrightarrow> obj_get (parsed_headers content) k = Some v"
      using distinct_parsed [of content] by (simp add: obj_get_def)
    then show ?thesis by (auto simp: obj_get_parsed split: if_splits)
  qed
  from body_after_blank [OF assms(2)] p s distinct_parsed [of content] show ?thesis
    by auto
qed

theorem parse_well_formed_witness:
  "\<exists>parsed blank.
      parseEmailTemplate
        [ascii ''t'' \<mapsto> ascii ''From: a\<newline>To: b\<newline>Subject: c\<newline>X: 1\<newline>X: 2\<newline> \<newline>Hello\<newline>there'']
        (ascii ''t'') = Inr parsed \<and>
      distinct (map fst (headers parsed)) \<and>
      set (headers parsed) =
        {(k, v). k \<noteq> PROTO \<and>
           last_written (ascii ''From: a\<newline>To: b\<newline>Subject: c\<newline>X: 1\<newline>X: 2\<newline> \<newline>Hello\<newline>there'') k = Some v} \<and>
      trim blank = [] \<and> NL \<notin> set blank \<and>
      (ascii ''From: a\<newline>To: b\<newline>Subject: c\<newline>X: 1\<newline>X: 2\<newline> \<newline>Hello\<newline>there'' =
         join_with [NL]
           (header_lines (ascii ''From: a\<newline>To: b\<newline>Subject: c\<newline>X: 1\<newline>X: 2\<newline> \<newline>Hello\<newline>there'') @ [blank]) @
         NL # body parsed \<or>
       ascii ''From: a\<newline>To: b\<newline>Subject: c\<newline>X: 1\<newline>X: 2\<newline> \<newline>Hello\<newline>there'' =
         join_with [NL]
           (header_lines (ascii ''From: a\<newline>To: b\<newline>Subject: c\<newline>X: 1\<newline>X: 2\<newline> \<newline>Hello\<newline>there'') @ [blank]) \<and>
       body parsed = [])"
proof -
  let ?c = "ascii ''From: a\<newline>To: b\<newline>Subject: c\<newline>X: 1\<newline>X: 2\<newline> \<newline>Hello\<newline>there''"
  have h1: "[ascii ''t'' \<mapsto> ?c] (ascii ''t'') = Some ?c" by simp
  have h2: "has_blank_line ?c" by (simp add: string_defs spec_defs)
  have h3: "\<forall>field\<in>set MANDATORY_FIELDS. \<not> falsy (last_written ?c field)"
    by (simp add: string_defs spec_defs MANDATORY_FIELDS_def falsy_def)
  show ?thesis
    by (rule parse_well_formed [of "[ascii ''t'' \<mapsto> ?c]" "ascii ''t''" ?c, OF h1 h2 h3])
qed

text \<open>
  Claim C1 as stated fails: the template below has a blank line and non-empty
  \<^verbatim>\<open>From\<close>, \<^verbatim>\<open>To\<close> and \<^verbatim>\<open>Subject\<close>, and its fourth header line writes the pair
  of \<^verbatim>\<open>__proto__\<close> and \<^verbatim>\<open>x\<close>, but the returned headers have three entries and
  none for \<^verbatim>\<open>__proto__\<close>.
\<close>

theorem parse_well_formed_counterexample:
  "has_blank_line (ascii ''From: a\<newline>To: b\<newline>Subject: c\<newline>__proto__: x\<newline>\<newline>body'') \<and>
   last_written (ascii ''From: a\<newline>To: b\<newline>Subject: c\<newline>__proto__: x\<newline>\<newline>body'') (ascii ''From'') = Some (ascii ''a'') \<and>
   last_written (ascii ''From: a\<newline>To: b\<newline>Subject: c\<newline>__proto__: x\<newline>\<newline>body'') (ascii ''To'') = Some (ascii ''b'') \<and>
   last_written (ascii ''From: a\<newline>To: b\<newline>Subject: c\<newline>__proto__: x\<newline>\<newline>body'') (ascii ''Subject'') = Some (ascii ''c'') \<and>
   written_pairs (ascii ''From: a\<newline>To: b\<newline>Subject: c\<newline>__proto__: x\<newline>\<newline>body'') =
     [(ascii ''From'', ascii ''a''), (ascii ''To'', ascii ''b''), (ascii ''Subject'', ascii ''c''),
      (ascii ''__proto__'', ascii ''x'')] \<and>
   parseEmailTemplate
     [ascii ''t'' \<mapsto> ascii ''From: a\<newline>To: b\<newline>Subject: c\<newline>__proto__: x\<newline>\<newline>body'']
     (ascii ''t'') =
   Inr \<lparr>headers = [(ascii ''From'', ascii ''a''), (ascii ''To'', ascii ''b''), (ascii ''Subject'', ascii ''c'')],
        body = ascii ''body''\<rparr>"
  by (simp add: string_defs parser_defs spec_defs)

text \<open>
  Claim C2, as amended. For all headers and every body whose serialized text is well
  formed, decoding the result of \<open>createMessage\<close> as \<^verbatim>\<open>sendEmail\<close> does (the
  URL-safe characters mapped back, base64 decoded, the bytes read as UTF-8) gives back
  the serialized text: one line for every key that \<^verbatim>\<open>Object.keys\<close> lists, made of the
  key, a colon, a space and the value, then one empty line, then the body. When the
  keys are distinct and none is an array index these are the headers as they stand.
\<close>

theorem encoding_round_trip:
  assumes "well_formed (serialized_text (emitted_headers hdrs) bdy)"
  shows "decodedMessage (createMessage hdrs bdy) =
           Some (serialized_text (emitted_headers hdrs) bdy) \<and>
         (distinct (map fst hdrs) \<and> \<not> list_ex is_array_index (map fst hdrs) \<longrightarrow>
            decodedMessage (createMessage hdrs bdy) = Some (serialized_text hdrs bdy))"
proof -
  have "decodedMessage (createMessage hdrs bdy) =
        Some (utf8_decode (utf8_encode (serialized_text (emitted_headers hdrs) bdy)))"
    by (simp add: decodedMessage_def payload_bytes message_serialized)
  with assms have first: "decodedMessage (createMessage hdrs bdy) =
        Some (serialized_text (emitted_headers hdrs) bdy)"
    by (simp add: utf8_round_trip)
  then show ?thesis by (auto simp: emitted_headers_plain)
qed

theorem encoding_round_trip_witness:
  "decodedMessage
     (ascii ''RnJvbTogYUB4LmNvbQpUbzogYkB4LmNvbQpTdWJqZWN0OiBIaQoKSGVsbG8gdGhlcmU'') =
   Some (ascii ''From: a@x.com\<newline>To: b@x.com\<newline>Subject: Hi\<newline>\<newline>Hello there'')"
proof -
  let ?h = "[(ascii ''From'', ascii ''a@x.com''), (ascii ''To'', ascii ''b@x.com''),
             (ascii ''Subject'', ascii ''Hi'')]"
  have k: "distinct (map fst ?h) \<and> \<not> list_ex is_array_index (map fst ?h)"
    by (simp add: is_array_index_def is_digit_def ascii_def)
  then have e: "emitted_headers ?h = ?h" by (simp add: emitted_headers_plain)
  have t: "serialized_text ?h (ascii ''Hello there'') =
      ascii ''From: a@x.com\<newline>To: b@x.com\<newline>Subject: Hi\<newline>\<newline>Hello there''"
    by (simp add: serialized_text_def ascii_def COLON_def SPACE_def NL_def)
  have h: "well_formed (serialized_text (emitted_headers ?h) (ascii ''Hello there''))"
    unfolding e t by (rule example_well_formed)
  from encoding_round_trip [OF h] k
  have "decodedMessage (createMessage ?h (ascii ''Hello there'')) =
        Some (serialized_text ?h (ascii ''Hello there''))" by blast
  then show ?thesis by (simp only: example_raw t)
qed

text \<open>
  Claim C2 as stated fails for a body with a surrogate that has no partner: the
  encoder writes U+FFFD for it, so the body of the single code unit D800 and the body
  of the single code unit FFFD give the same raw message, and the text decoded from
  it is not the serialized text of the first.
\<close>

theorem encoding_round_trip_counterexample:
  "message [(ascii ''To'', ascii ''b'')] [0xD800] = ascii ''To: b\<newline>\<newline>'' @ [0xD800] \<and>
   createMessage [(ascii ''To'', ascii ''b'')] [0xD800] =
     createMessage [(ascii ''To'', ascii ''b'')] [0xFFFD] \<and>
   decodedMessage (createMessage [(ascii ''To'', ascii ''b'')] [0xD800]) =
     Some (ascii ''To: b\<newline>\<newline>'' @ [0xFFFD])"
proof -
  have m1: "message [(ascii ''To'', ascii ''b'')] [0xD800] = ascii ''To: b\<newline>\<newline>'' @ [0xD800]"
    by (simp add: message_defs)
  have m2: "message [(ascii ''To'', ascii ''b'')] [0xFFFD] = ascii ''To: b\<newline>\<newline>'' @ [0xFFFD]"
    by (simp add: message_defs)
  have e1: "utf8_encode (ascii ''To: b\<newline>\<newline>'' @ [0xD800]) =
      [84, 111, 58, 32, 98, 10, 10, 239, 191, 189]"
    by (simp add: ascii_def utf8_defs)
  have e2: "utf8_encode (ascii ''To: b\<newline>\<newline>'' @ [0xFFFD]) =
      [84, 111, 58, 32, 98, 10, 10, 239, 191, 189]"
    by (simp add: ascii_def utf8_defs)
  have d: "utf8_decode [84, 111, 58, 32, 98, 10, 10, 239, 191, 189] =
      ascii ''To: b\<newline>\<newline>'' @ [0xFFFD]"
    by (simp add: ascii_def Let_def continuation_def code_units_def REPLACEMENT_def)
  have same: "createMessage [(ascii ''To'', ascii ''b'')] [0xD800] =
      createMessage [(ascii ''To'', ascii ''b'')] [0xFFFD]"
    by (simp only: createMessage_def m1 m2 e1 e2)
  have "decodedMessage (createMessage [(ascii ''To'', ascii ''b'')] [0xD800]) =
      Some (utf8_decode [84, 111, 58, 32, 98, 10, 10, 239, 191, 189])"
    by (simp only: decodedMessage_def payload_bytes m1 e1 option.map)
  with m1 same d show ?thesis by (simp only: simp_thms)
qed









text \<open>
  Claim C8. Whenever \<open>parseEmailTemplate\<close> succeeds, the returned headers hold a
  non-empty value for \<^verbatim>\<open>To\<close>, so the second check of \<^verbatim>\<open>headers.To\<close> in
  \<^verbatim>\<open>sendEmail\<close> never takes its error branch.
\<close>

theorem to_recheck_unreachable:
  "sendEmail_prepare fs templateFile \<noteq> ToRequired \<and>
   (parseEmailTemplate fs templateFile = Inr parsed \<longrightarrow>
      (\<exists>v. obj_get (headers parsed) (ascii ''To'') = Some v \<and> v \<noteq> []))"
proof -
  have ok: "\<not> falsy (obj_get (headers p) (ascii ''To''))"
    if "parseEmailTemplate fs templateFile = Inr p" for p
  proof -
    from that obtain content where
      "filter (\<lambda>field. falsy (obj_get (parsed_headers content) field)) MANDATORY_FIELDS = []"
      and "headers p = parsed_headers content"
      by (auto simp: parseEmailTemplate_def parse_content_cases split: option.splits if_splits)
    then have "\<forall>field\<in>set MANDATORY_FIELDS. \<not> falsy (obj_get (headers p) field)"
      by (simp add: filter_empty_conv)
    moreover have "ascii ''To'' \<in> set MANDATORY_FIELDS" by (simp add: MANDATORY_FIELDS_def)
    ultimately show ?thesis by blast
  qed
  have "sendEmail_prepare fs templateFile \<noteq> ToRequired"
    using ok by (auto simp: sendEmail_prepare_def split: sum.splits)
  moreover have "\<exists>v. obj_get (headers parsed) (ascii ''To'') = Some v \<and> v \<noteq> []"
    if "parseEmailTemplate fs templateFile = Inr parsed"
    using ok [OF that] by (auto simp: falsy_def)
  ultimately show ?thesis by simp
qed

theorem to_recheck_unreachable_witness:
  "sendEmail_prepare [ascii ''t'' \<mapsto> ascii ''From: a\<newline>To: b\<newline>Subject: c\<newline>\<newline>hi''] (ascii ''t'') \<noteq> ToRequired \<and>
   (\<exists>v. obj_get
          (headers \<lparr>headers = [(ascii ''From'', ascii ''a''), (ascii ''To'', ascii ''b''),
                               (ascii ''Subject'', ascii ''c'')], body = ascii ''hi''\<rparr>)
          (ascii ''To'') = Some v \<and> v \<noteq> [])"
proof -
  let ?c = "ascii ''From: a\<newline>To: b\<newline>Subject: c\<newline>\<newline>hi''"
  let ?p = "\<lparr>headers = [(ascii ''From'', ascii ''a''), (ascii ''To'', ascii ''b''),
                       (ascii ''Subject'', ascii ''c'')], body = ascii ''hi''\<rparr>"
  have h: "parseEmailTemplate [ascii ''t'' \<mapsto> ?c] (ascii ''t'') = Inr ?p"
    by (simp add: string_defs parser_defs)
  from to_recheck_unreachable [of "[ascii ''t'' \<mapsto> ?c]" "ascii ''t''" ?p] h
  show ?thesis by blast
qed

text \<open>
  Claim C6, as amended. For the headers of every parsed template, the serialized
  text is one line per key written in the template (\<^verbatim>\<open>__proto__\<close> apart), each the
  key, a colon, a space and the value written last for the key; then one empty line;
  then the body. The lines of the keys that are array indices come first, in
  ascending numeric order, and the lines of all other keys follow in the order in
  which the keys first occur in the template. When no key is an array index the
  lines are exactly in that order of first occurrence.
\<close>

theorem serialization_order:
  assumes "fs templateFile = Some content"
    and "parseEmailTemplate fs templateFile = Inr parsed"
  shows "message (headers parsed) (body parsed) =
           join_with [NL]
             (map (expected_line content)
                (sort_key index_value (filter is_array_index (written_keys content)) @
                 filter (\<lambda>k. \<not> is_array_index k) (written_keys content)) @
              [[], body parsed]) \<and>
         (\<not> list_ex is_array_index (written_keys content) \<longrightarrow>
            message (headers parsed) (body parsed) =
              join_with [NL] (map (expected_line content) (written_keys content) @ [[], body parsed]))"
proof -
  have h: "headers parsed = parsed_headers content" using assms by (rule parsed_success)
  have keys: "map fst (parsed_headers content) = written_keys content"
    by (simp add: keys_parsed written_keys_def)
  have lines: "map (header_line (parsed_headers content)) (Object_keys (parsed_headers content)) =
        map (expected_line content) (Object_keys (parsed_headers content))"
    by (rule map_cong) (simp_all add: header_line_parsed)
  have ok: "Object_keys (parsed_headers content) =
        sort_key index_value (filter is_array_index (written_keys content)) @
        filter (\<lambda>k. \<not> is_array_index k) (written_keys content)"
    by (simp add: Object_keys_def keys)
  have first: "message (headers parsed) (body parsed) =
           join_with [NL]
             (map (expected_line content)
                (sort_key index_value (filter is_array_index (written_keys content)) @
                 filter (\<lambda>k. \<not> is_array_index k) (written_keys content)) @
              [[], body parsed])"
    unfolding message_def messageParts_def h ok lines [unfolded ok] ..
  have "message (headers parsed) (body parsed) =
          join_with [NL] (map (expected_line content) (written_keys content) @ [[], body parsed])"
    if "\<not> list_ex is_array_index (written_keys content)"
  proof -
    from that have k: "Object_keys (parsed_headers content) = written_keys content"
      using Object_keys_no_index [of "parsed_headers content"] by (simp add: keys)
    show ?thesis unfolding message_def messageParts_def h k lines [unfolded k] ..
  qed
  with first show ?thesis by blast
qed

theorem serialization_order_witness:
  "message
     [(ascii ''From'', ascii ''a''), (ascii ''To'', ascii ''b''), (ascii ''Subject'', ascii ''c''),
      (ascii ''Content-Type'', ascii ''text/html'')]
     (ascii ''hi'') =
   ascii ''From: a\<newline>To: b\<newline>Subject: c\<newline>Content-Type: text/html\<newline>\<newline>hi''"
proof -
  let ?c = "ascii ''From: a\<newline>To: b\<newline>Subject: c\<newline>Content-Type: text/html\<newline>\<newline>hi''"
  let ?p = "\<lparr>headers = [(ascii ''From'', ascii ''a''), (ascii ''To'', ascii ''b''),
      (ascii ''Subject'', ascii ''c''), (ascii ''Content-Type'', ascii ''text/html'')],
      body = ascii ''hi''\<rparr>"
  have h1: "[ascii ''t'' \<mapsto> ?c] (ascii ''t'') = Some ?c" by simp
  have h2: "parseEmailTemplate [ascii ''t'' \<mapsto> ?c] (ascii ''t'') = Inr ?p"
    by (simp add: string_defs parser_defs)
  have k: "written_keys ?c =
      [ascii ''From'', ascii ''To'', ascii ''Subject'', ascii ''Content-Type'']"
    by (simp add: written_keys_def first_occurrences_def string_defs spec_defs)
  have h3: "\<not> list_ex is_array_index (written_keys ?c)"
    unfolding k by (simp add: is_array_index_def is_digit_def ascii_def)
  have e: "map (expected_line ?c) (written_keys ?c) =
      [ascii ''From: a'', ascii ''To: b'', ascii ''Subject: c'', ascii ''Content-Type: text/html'']"
    unfolding k by (simp add: expected_line_def string_defs spec_defs)
  from serialization_order [of "[ascii ''t'' \<mapsto> ?c]" "ascii ''t''" ?c ?p, OF h1 h2] h3
  have "message (headers ?p) (body ?p) =
          join_with [NL] (map (expected_line ?c) (written_keys ?c) @ [[], body ?p])"
    by blast
  then show ?thesis unfolding e by (simp add: ascii_def NL_def)
qed

text \<open>
  Claim C6 as stated fails: in the template below the key \<^verbatim>\<open>7\<close> is inserted last,
  after \<^verbatim>\<open>From\<close>, \<^verbatim>\<open>To\<close> and \<^verbatim>\<open>Subject\<close>, and its line is serialized first.
\<close>

theorem serialization_order_counterexample:
  "parseEmailTemplate
     [ascii ''t'' \<mapsto> ascii ''From: a\<newline>To: b\<newline>Subject: c\<newline>7: x\<newline>\<newline>hi'']
     (ascii ''t'') =
   Inr \<lparr>headers = [(ascii ''From'', ascii ''a''), (ascii ''To'', ascii ''b''),
                   (ascii ''Subject'', ascii ''c''), (ascii ''7'', ascii ''x'')],
        body = ascii ''hi''\<rparr> \<and>
   message
     [(ascii ''From'', ascii ''a''), (ascii ''To'', ascii ''b''), (ascii ''Subject'', ascii ''c''),
      (ascii ''7'', ascii ''x'')]
     (ascii ''hi'') =
   ascii ''7: x\<newline>From: a\<newline>To: b\<newline>Subject: c\<newline>\<newline>hi''"
  by (simp add: string_defs parser_defs message_def messageParts_def header_line_def
      or_empty_def Object_keys_def is_array_index_def is_digit_def index_value_def)

text \<open>
  Claim C9, as amended. In a parsed template, let a key other than \<^verbatim>\<open>__proto__\<close>
  be written on header lines, the last of them with the value \<open>v\<close> (the pairs written
  are \<open>earlier\<close>, then the key with \<open>v\<close>, then \<open>later\<close> without the key; \<open>earlier\<close> may
  hold the key any number of times). Then the headers have exactly one entry for the
  key, its value is \<open>v\<close>, and the serialized header lines have exactly one line for
  the key, which carries \<open>v\<close>.
\<close>

theorem duplicate_key_last_wins:
  assumes "fs templateFile = Some content"
    and "parseEmailTemplate fs templateFile = Inr parsed"
    and "written_pairs content = earlier @ (k, v) # later"
    and "k \<notin> fst ` set later"
    and "k \<noteq> PROTO"
  shows "filter (\<lambda>entry. fst entry = k) (headers parsed) = [(k, v)] \<and>
         obj_get (headers parsed) k = Some v \<and>
         filter (\<lambda>l. takeWhile (\<lambda>c. c \<noteq> COLON) l = k)
           (map (header_line (headers parsed)) (Object_keys (headers parsed))) =
         [k @ [COLON, SPACE] @ v]"
proof -
  have h: "headers parsed = parsed_headers content" using assms(1,2) by (rule parsed_success)
  have "map_of (rev later) k = None"
    using assms(4) by (simp add: map_of_eq_None_iff)
  then have "last_written content k = Some v"
    by (simp add: last_written_def assms(3) map_of_append map_add_def)
  then have get: "obj_get (parsed_headers content) k = Some v"
    using assms(5) by (simp add: obj_get_parsed)
  then have mem: "(k, v) \<in> set (parsed_headers content)"
    by (simp add: obj_get_def map_of_SomeD)
  have one: "filter (\<lambda>entry. fst entry = k) (parsed_headers content) = [(k, v)]"
    using distinct_parsed [of content] mem by (rule filter_key_distinct)
  have colon_free: "COLON \<notin> set k'" if "k' \<in> set (Object_keys (parsed_headers content))" for k'
  proof -
    from that obtain v' where "(k', v') \<in> set (parsed_headers content)"
      by (auto simp: set_Object_keys)
    then have "(k', v') \<in> set (written_pairs content)" by (rule parsed_entry_written)
    then show ?thesis by (rule written_pairs_props)
  qed
  have key_back: "takeWhile (\<lambda>c. c \<noteq> COLON) (header_line (parsed_headers content) k') = k'"
    if "k' \<in> set (Object_keys (parsed_headers content))" for k'
  proof -
    from that obtain v' where "(k', v') \<in> set (parsed_headers content)"
      by (auto simp: set_Object_keys)
    then have "obj_get (parsed_headers content) k' = Some v'"
      using distinct_parsed [of content] by (simp add: obj_get_def)
    then have "header_line (parsed_headers content) k' = k' @ [COLON, SPACE] @ v'"
      by (rule header_line_own)
    with key_of_line [OF colon_free [OF that], of v'] show ?thesis by simp
  qed
  have "filter (\<lambda>l. takeWhile (\<lambda>c. c \<noteq> COLON) l = k)
          (map (header_line (parsed_headers content)) (Object_keys (parsed_headers content))) =
        map (header_line (parsed_headers content))
          (filter (\<lambda>k'. takeWhile (\<lambda>c. c \<noteq> COLON) (header_line (parsed_headers content) k') = k)
             (Object_keys (parsed_headers content)))"
    by (simp add: filter_map comp_def)
  also have "filter (\<lambda>k'. takeWhile (\<lambda>c. c \<noteq> COLON) (header_line (parsed_headers content) k') = k)
             (Object_keys (parsed_headers content)) =
        filter (\<lambda>k'. k' = k) (Object_keys (parsed_headers content))"
    by (rule filter_cong) (simp_all add: key_back)
  also have "\<dots> = [k]"
  proof (rule filter_eq_distinct)
    show "distinct (Object_keys (parsed_headers content))"
      using distinct_parsed by (rule distinct_Object_keys)
    show "k \<in> set (Object_keys (parsed_headers content))"
      using mem by (auto simp: set_Object_keys intro: rev_image_eqI)
  qed
  finally have "filter (\<lambda>l. takeWhile (\<lambda>c. c \<noteq> COLON) l = k)
          (map (header_line (parsed_headers content)) (Object_keys (parsed_headers content))) =
        [k @ [COLON, SPACE] @ v]"
    using get by (simp add: header_line_own)
  with one get show ?thesis by (simp add: h)
qed

theorem duplicate_key_last_wins_witness:
  "filter (\<lambda>entry. fst entry = ascii ''X'')
     (headers \<lparr>headers = [(ascii ''From'', ascii ''a''), (ascii ''X'', ascii ''3''),
                          (ascii ''To'', ascii ''b''), (ascii ''Subject'', ascii ''c'')],
               body = ascii ''hi''\<rparr>) = [(ascii ''X'', ascii ''3'')] \<and>
   obj_get
     (headers \<lparr>headers = [(ascii ''From'', ascii ''a''), (ascii ''X'', ascii ''3''),
                          (ascii ''To'', ascii ''b''), (ascii ''Subject'', ascii ''c'')],
               body = ascii ''hi''\<rparr>) (ascii ''X'') = Some (ascii ''3'') \<and>
   filter (\<lambda>l. takeWhile (\<lambda>c. c \<noteq> COLON) l = ascii ''X'')
     (map (header_line
             (headers \<lparr>headers = [(ascii ''From'', ascii ''a''), (ascii ''X'', ascii ''3''),
                          (ascii ''To'', ascii ''b''), (ascii ''Subject'', ascii ''c'')],
               body = ascii ''hi''\<rparr>))
        (Object_keys
           (headers \<lparr>headers = [(ascii ''From'', ascii ''a''), (ascii ''X'', ascii ''3''),
                          (ascii ''To'', ascii ''b''), (ascii ''Subject'', ascii ''c'')],
               body = ascii ''hi''\<rparr>))) =
   [ascii ''X'' @ [COLON, SPACE] @ ascii ''3'']"
proof -
  let ?c = "ascii ''From: a\<newline>X: 1\<newline>To: b\<newline>X: 2\<newline>Subject: c\<newline>X: 3\<newline>\<newline>hi''"
  let ?p = "\<lparr>headers = [(ascii ''From'', ascii ''a''), (ascii ''X'', ascii ''3''),
                          (ascii ''To'', ascii ''b''), (ascii ''Subject'', ascii ''c'')],
               body = ascii ''hi''\<rparr>"
  let ?earlier = "[(ascii ''From'', ascii ''a''), (ascii ''X'', ascii ''1''), (ascii ''To'', ascii ''b''),
      (ascii ''X'', ascii ''2''), (ascii ''Subject'', ascii ''c'')]"
  have h1: "[ascii ''t'' \<mapsto> ?c] (ascii ''t'') = Some ?c" by simp
  have h2: "parseEmailTemplate [ascii ''t'' \<mapsto> ?c] (ascii ''t'') = Inr ?p"
    by (simp add: string_defs parser_defs)
  have h3: "written_pairs ?c = ?earlier @ (ascii ''X'', ascii ''3'') # []"
    by (simp add: string_defs spec_defs)
  have h4: "ascii ''X'' \<notin> fst ` set []" by simp
  have h5: "ascii ''X'' \<noteq> PROTO" by (simp add: string_defs)
  show ?thesis
    by (rule duplicate_key_last_wins [of "[ascii ''t'' \<mapsto> ?c]" "ascii ''t''" ?c ?p ?earlier
          "ascii ''X''" "ascii ''3''" "[]", OF h1 h2 h3 h4 h5])
qed

text \<open>
  Claim C9 as stated fails for the key \<^verbatim>\<open>__proto__\<close>: the template below writes it
  on two header lines, the parse succeeds, the headers have no entry for it and the
  serialized text has no line for it.
\<close>

theorem duplicate_key_last_wins_counterexample:
  "written_pairs (ascii ''From: a\<newline>To: b\<newline>Subject: c\<newline>__proto__: x\<newline>__proto__: y\<newline>\<newline>hi'') =
     [(ascii ''From'', ascii ''a''), (ascii ''To'', ascii ''b''), (ascii ''Subject'', ascii ''c''),
      (ascii ''__proto__'', ascii ''x''), (ascii ''__proto__'', ascii ''y'')] \<and>
   parseEmailTemplate
     [ascii ''t'' \<mapsto> ascii ''From: a\<newline>To: b\<newline>Subject: c\<newline>__proto__: x\<newline>__proto__: y\<newline>\<newline>hi'']
     (ascii ''t'') =
   Inr \<lparr>headers = [(ascii ''From'', ascii ''a''), (ascii ''To'', ascii ''b''),
                   (ascii ''Subject'', ascii ''c'')],
        body = ascii ''hi''\<rparr> \<and>
   obj_get [(ascii ''From'', ascii ''a''), (ascii ''To'', ascii ''b''), (ascii ''Subject'', ascii ''c'')]
     (ascii ''__proto__'') = None \<and>
   message [(ascii ''From'', ascii ''a''), (ascii ''To'', ascii ''b''), (ascii ''Subject'', ascii ''c'')]
     (ascii ''hi'') =
   ascii ''From: a\<newline>To: b\<newline>Subject: c\<newline>\<newline>hi''"
  by (simp add: string_defs parser_defs spec_defs message_def messageParts_def header_line_def
      or_empty_def Object_keys_def is_array_index_def is_digit_def index_value_def)

text \<open>
  Claim C10. The text that \<open>createMessage\<close> serializes, and whose bytes its result
  encodes, has for every key a line made of the key, a colon, exactly one space and
  the value of the key as it is stored; so the headers of a single key with the empty
  value give the key, the colon and a trailing space. For a parsed template every
  header line of the serialized text uses exactly one space after its colon; hence, if
  some header line of the template does not, the header lines of the serialized text
  differ from the header lines of the template, and the serialized text from the
  template.
\<close>

theorem single_space_after_colon:
  "message hdrs bdy = serialized_text (emitted_headers hdrs) bdy \<and>
   b64url_decode (createMessage hdrs bdy) =
     Some (utf8_encode (serialized_text (emitted_headers hdrs) bdy)) \<and>
   (\<forall>k\<in>set (Object_keys hdrs). \<exists>v. obj_get hdrs k = Some v \<and> (k, v) \<in> set (emitted_headers hdrs)) \<and>
   message [(key, [])] bdy = key @ [COLON, SPACE, NL, NL] @ bdy \<and>
   (fs templateFile = Some content \<and> parseEmailTemplate fs templateFile = Inr parsed \<longrightarrow>
      list_all one_space_after_colon (header_lines (message (headers parsed) (body parsed))) \<and>
      ((\<exists>l\<in>set (header_lines content). \<not> one_space_after_colon l) \<longrightarrow>
         header_lines (message (headers parsed) (body parsed)) \<noteq> header_lines content \<and>
         message (headers parsed) (body parsed) \<noteq> content))"
proof -
  have a: "message hdrs bdy = serialized_text (emitted_headers hdrs) bdy"
    by (rule message_serialized)
  have b: "b64url_decode (createMessage hdrs bdy) =
     Some (utf8_encode (serialized_text (emitted_headers hdrs) bdy))"
    by (simp only: payload_bytes message_serialized)
  have c: "\<exists>v. obj_get hdrs k = Some v \<and> (k, v) \<in> set (emitted_headers hdrs)"
    if "k \<in> set (Object_keys hdrs)" for k
  proof -
    from that have "k \<in> fst ` set hdrs" by (simp add: set_Object_keys)
    then obtain w where "(k, w) \<in> set hdrs" by auto
    then have "\<exists>v. map_of hdrs k = Some v" by (rule weak_map_of_SomeI)
    then obtain v where v: "obj_get hdrs k = Some v" by (auto simp: obj_get_def)
    then have "or_empty (obj_get hdrs k) = v" by (simp add: or_empty_def falsy_def)
    with that have "(k, v) \<in> set (emitted_headers hdrs)"
      by (auto simp: emitted_headers_def)
    with v show ?thesis by blast
  qed
  have d: "message [(key, [])] bdy = key @ [COLON, SPACE, NL, NL] @ bdy"
  proof -
    have "Object_keys [(key, [])] = [key]" by (simp add: Object_keys_def)
    then have "emitted_headers [(key, [])] = [(key, [])]"
      by (simp add: emitted_headers_def obj_get_def or_empty_def falsy_def)
    then show ?thesis by (simp add: message_serialized serialized_text_def)
  qed
  have e: "list_all one_space_after_colon (header_lines (message (headers parsed) (body parsed))) \<and>
      ((\<exists>l\<in>set (header_lines content). \<not> one_space_after_colon l) \<longrightarrow>
         header_lines (message (headers parsed) (body parsed)) \<noteq> header_lines content \<and>
         message (headers parsed) (body parsed) \<noteq> content)"
    if ok: "fs templateFile = Some content \<and> parseEmailTemplate fs templateFile = Inr parsed"
  proof -
    from ok have h: "headers parsed = parsed_headers content"
      using parsed_success(1) [of fs templateFile content parsed] by simp
    have all: "list_all one_space_after_colon (header_lines (message (headers parsed) (body parsed)))"
      by (simp only: h header_lines_message parsed_lines_one_space)
    have diff: "header_lines (message (headers parsed) (body parsed)) \<noteq> header_lines content"
      if bad: "\<exists>l\<in>set (header_lines content). \<not> one_space_after_colon l"
    proof
      assume "header_lines (message (headers parsed) (body parsed)) = header_lines content"
      with all have "list_all one_space_after_colon (header_lines content)" by simp
      with bad show False by (simp add: list_all_iff)
    qed
    then have "message (headers parsed) (body parsed) \<noteq> content"
      if "\<exists>l\<in>set (header_lines content). \<not> one_space_after_colon l"
      using that by auto
    with all diff show ?thesis by blast
  qed
  from a b c d e show ?thesis by blast
qed

theorem single_space_after_colon_witness:
  "message [(ascii ''X'', [])] (ascii ''hi'') = ascii ''X: \<newline>\<newline>hi'' \<and>
   header_lines (ascii ''From:a\<newline>To:  b\<newline>Subject: c\<newline>X:\<newline>\<newline>hi'') =
     [ascii ''From:a'', ascii ''To:  b'', ascii ''Subject: c'', ascii ''X:''] \<and>
   message [(ascii ''From'', ascii ''a''), (ascii ''To'', ascii ''b''),
            (ascii ''Subject'', ascii ''c''), (ascii ''X'', [])] (ascii ''hi'') =
     ascii ''From: a\<newline>To: b\<newline>Subject: c\<newline>X: \<newline>\<newline>hi'' \<and>
   header_lines
     (message (headers \<lparr>headers = [(ascii ''From'', ascii ''a''), (ascii ''To'', ascii ''b''),
                                   (ascii ''Subject'', ascii ''c''), (ascii ''X'', [])],
                        body = ascii ''hi''\<rparr>)
              (body \<lparr>headers = [(ascii ''From'', ascii ''a''), (ascii ''To'', ascii ''b''),
                                (ascii ''Subject'', ascii ''c''), (ascii ''X'', [])],
                     body = ascii ''hi''\<rparr>)) \<noteq>
   header_lines (ascii ''From:a\<newline>To:  b\<newline>Subject: c\<newline>X:\<newline>\<newline>hi'')"
proof -
  let ?c = "ascii ''From:a\<newline>To:  b\<newline>Subject: c\<newline>X:\<newline>\<newline>hi''"
  let ?h = "[(ascii ''From'', ascii ''a''), (ascii ''To'', ascii ''b''),
             (ascii ''Subject'', ascii ''c''), (ascii ''X'', [])]"
  let ?p = "\<lparr>headers = ?h, body = ascii ''hi''\<rparr>"
  have h1: "[ascii ''t'' \<mapsto> ?c] (ascii ''t'') = Some ?c \<and>
            parseEmailTemplate [ascii ''t'' \<mapsto> ?c] (ascii ''t'') = Inr ?p"
    by (simp add: string_defs parser_defs)
  have hl: "header_lines ?c = [ascii ''From:a'', ascii ''To:  b'', ascii ''Subject: c'', ascii ''X:'']"
    by (simp add: string_defs spec_defs)
  have h2: "\<exists>l\<in>set (header_lines ?c). \<not> one_space_after_colon l"
    unfolding hl by (simp add: one_space_after_colon_def string_defs)
  have k: "distinct (map fst ?h) \<and> \<not> list_ex is_array_index (map fst ?h)"
    by (simp add: is_array_index_def is_digit_def ascii_def)
  then have em: "emitted_headers ?h = ?h" by (simp add: emitted_headers_plain)
  note t = single_space_after_colon [where hdrs = ?h and key = "ascii ''X''" and bdy = "ascii ''hi''"
      and fs = "[ascii ''t'' \<mapsto> ?c]" and templateFile = "ascii ''t''" and content = ?c
      and parsed = ?p]
  from t have "message [(ascii ''X'', [])] (ascii ''hi'') = ascii ''X'' @ [COLON, SPACE, NL, NL] @ ascii ''hi''"
    by blast
  then have x: "message [(ascii ''X'', [])] (ascii ''hi'') = ascii ''X: \<newline>\<newline>hi''"
    by (simp add: string_defs)
  from t have "message ?h (ascii ''hi'') = serialized_text (emitted_headers ?h) (ascii ''hi'')"
    by blast
  then have "message ?h (ascii ''hi'') = serialized_text ?h (ascii ''hi'')"
    by (simp only: em)
  then have m: "message ?h (ascii ''hi'') = ascii ''From: a\<newline>To: b\<newline>Subject: c\<newline>X: \<newline>\<newline>hi''"
    by (simp add: serialized_text_def ascii_def COLON_def SPACE_def NL_def)
  from t h1 h2 have "header_lines (message (headers ?p) (body ?p)) \<noteq> header_lines ?c" by blast
  with x hl m show ?thesis by (simp only: simp_thms)
qed

end
